theory Spec2Isabelle
  imports Main "HOL-Library.Char_ord" "HOL-Library.List_Lexorder"
begin

section \<open>Strings as the engine uses them\<close>

text \<open>
  A \<open>QString\<close> is modelled as a \<open>string\<close> (a list of 8-bit characters), and
  \<open>QString::operator<\<close> as the lexicographic order on character codes.  Case
  conversion and the character classes of \<open>QChar\<close> and \<open>QRegExp\<close> are modelled
  on the ASCII range, which is the alphabet of the lexicon.
\<close>

definition lowerLetters :: string where
  "lowerLetters = ''abcdefghijklmnopqrstuvwxyz''"

definition upperLetters :: string where
  "upperLetters = ''ABCDEFGHIJKLMNOPQRSTUVWXYZ''"

definition digitChars :: string where
  "digitChars = ''0123456789''"

definition toUpperChar :: "char \<Rightarrow> char" where
  "toUpperChar c = (case map_of (zip lowerLetters upperLetters) c of Some u \<Rightarrow> u | None \<Rightarrow> c)"

text \<open>\<open>QString::toUpper\<close>.\<close>

definition toUpper :: "string \<Rightarrow> string" where
  "toUpper s = map toUpperChar s"

text \<open>The word characters of \<open>QRegExp\<close>: a letter, a digit or the underscore.\<close>

definition isWordChar :: "char \<Rightarrow> bool" where
  "isWordChar c = (c \<in> set (lowerLetters @ upperLetters @ digitChars @ ''_''))"

text \<open>\<open>QString::replace (index, len, after)\<close>.\<close>

definition replaceAt :: "string \<Rightarrow> nat \<Rightarrow> nat \<Rightarrow> string \<Rightarrow> string" where
  "replaceAt s i len after = take i s @ after @ drop (i + len) s"

section \<open>The definition resolver\<close>

text \<open>
  A match of one of the two link expressions of \<open>replaceDefinitionLinks\<close>:
  an opening bracket, one or more word characters (the first capture), an
  equals sign, one or more word characters (the second capture) and the
  closing bracket.  The follow expression uses braces, the replace expression
  angle brackets (an escaped angle bracket is a literal character for
  \<open>QRegExp\<close>).  The record holds the index of the match, the two captured
  texts and the matched length.
\<close>

record RegExpMatch =
  index :: nat
  cap1 :: string
  cap2 :: string
  matchedLength :: nat

text \<open>
  A match anchored at the head of the text.  Each run of word characters is
  followed by a character that is not one, so the greedy match is the only
  candidate: a shorter run would have to be followed by a word character.
\<close>

definition matchLinkAt :: "char \<Rightarrow> char \<Rightarrow> string \<Rightarrow> (string \<times> string) option" where
  "matchLinkAt opn cls s =
     (case s of
        [] \<Rightarrow> None
      | c # r \<Rightarrow>
          if c \<noteq> opn then None
          else let w = takeWhile isWordChar r; r1 = dropWhile isWordChar r in
            if w = [] then None
            else (case r1 of
                [] \<Rightarrow> None
              | e # r2 \<Rightarrow>
                  if e \<noteq> CHR ''='' then None
                  else let p = takeWhile isWordChar r2; r3 = dropWhile isWordChar r2 in
                    if p = [] then None
                    else (case r3 of
                        [] \<Rightarrow> None
                      | z # r4 \<Rightarrow> if z = cls then Some (w, p) else None)))"

text \<open>\<open>QRegExp::indexIn (text, 0)\<close> for a link expression: the leftmost match.\<close>

fun indexIn :: "char \<Rightarrow> char \<Rightarrow> string \<Rightarrow> RegExpMatch option" where
  "indexIn opn cls [] = None"
| "indexIn opn cls (c # cs) =
     (case matchLinkAt opn cls (c # cs) of
        Some (w, p) \<Rightarrow>
          Some \<lparr>index = 0, cap1 = w, cap2 = p, matchedLength = length w + length p + 3\<rparr>
      | None \<Rightarrow>
          (case indexIn opn cls cs of
             None \<Rightarrow> None
           | Some m \<Rightarrow> Some (m\<lparr>index := Suc (index m)\<rparr>)))"

text \<open>
  The expression that \<open>replaceDefinitionLinks\<close> settles on: the follow
  expression when it matches (the flag is \<open>True\<close>), otherwise the replace
  expression; \<open>None\<close> when neither matches (\<open>index < 0\<close>).
\<close>

definition findLink :: "string \<Rightarrow> (bool \<times> RegExpMatch) option" where
  "findLink defn =
     (case indexIn (CHR ''{'') (CHR ''}'') defn of
        Some m \<Rightarrow> Some (True, m)
      | None \<Rightarrow>
          (case indexIn (CHR ''<'') (CHR ''>'') defn of
             Some m \<Rightarrow> Some (False, m)
           | None \<Rightarrow> None))"

text \<open>
  The replacement text for a matched link.  \<open>sub\<close> is
  \<open>WordEngine::getSubDefinition\<close>, the look-up of a word's sub-definition for a
  part of speech in the definition data; it is a parameter, so that what is
  proved holds for every definition data, cyclic or not.  (It reads the
  definition with \<open>getDefinition (word, false)\<close>, without replacing links, so
  it never comes back to \<open>replaceDefinitionLinks\<close>.)  \<open>matchedFollow\<close> says
  that \<open>matchedRegex\<close> is the follow expression.
\<close>

definition replacement ::
  "(string \<Rightarrow> string \<Rightarrow> string) \<Rightarrow> bool \<Rightarrow> bool \<Rightarrow> int \<Rightarrow> string \<Rightarrow> string \<Rightarrow> string" where
  "replacement sub matchedFollow useFollow maxDepth word pos =
     (if maxDepth = 0 then word
      else let upper = toUpper word; subdef = sub upper pos in
        if subdef = [] then (if useFollow then word else upper)
        else if useFollow then
          (if matchedFollow then word @ '' ('' @ subdef @ '')'' else subdef)
        else upper @ '', '' @ sub upper pos)"

text \<open>
  One activation of \<open>replaceDefinitionLinks\<close>: either it returns a text, or it
  calls itself on the modified text with \<open>maxDepth - 1\<close> and the current
  \<open>useFollow\<close>.
\<close>

datatype LinkStep = Return string | Recurse string int bool

definition linkStep ::
  "(string \<Rightarrow> string \<Rightarrow> string) \<Rightarrow> string \<Rightarrow> int \<Rightarrow> bool \<Rightarrow> LinkStep" where
  "linkStep sub defn maxDepth useFollow =
     (case findLink defn of
        None \<Rightarrow> Return defn
      | Some (matchedFollow, m) \<Rightarrow>
          let useFollow' = (matchedFollow \<or> useFollow);
              modified = replaceAt defn (index m) (matchedLength m)
                (replacement sub matchedFollow useFollow' maxDepth (cap1 m) (cap2 m))
          in if maxDepth \<noteq> 0 then Recurse modified (maxDepth - 1) useFollow'
             else Return modified)"

text \<open>
  \<open>WordEngine::replaceDefinitionLinks\<close>.  The recursion is the source's own,
  on a C++ \<open>int\<close> that is only tested against zero, so nothing in the
  definition bounds it: \<open>None\<close> stands for a call that never returns.
\<close>

partial_function (option) replaceDefinitionLinks ::
  "(string \<Rightarrow> string \<Rightarrow> string) \<Rightarrow> string \<Rightarrow> int \<Rightarrow> bool \<Rightarrow> string option" where
  "replaceDefinitionLinks sub defn maxDepth useFollow =
     (case linkStep sub defn maxDepth useFollow of
        Return s \<Rightarrow> Some s
      | Recurse modified depth follow \<Rightarrow> replaceDefinitionLinks sub modified depth follow)"

text \<open>
  The call chain of \<open>replaceDefinitionLinks\<close>: \<open>calls sub a b\<close> when the
  activation with arguments \<open>a\<close> calls the activation with arguments \<open>b\<close>.
\<close>

inductive calls ::
  "(string \<Rightarrow> string \<Rightarrow> string) \<Rightarrow> string \<times> int \<times> bool \<Rightarrow> string \<times> int \<times> bool \<Rightarrow> bool"
  for sub :: "string \<Rightarrow> string \<Rightarrow> string" where
  call: "linkStep sub defn maxDepth useFollow = Recurse modified depth follow \<Longrightarrow>
         calls sub (defn, maxDepth, useFollow) (modified, depth, follow)"

text \<open>Definition data in which the entry of LOOP refers to itself, and
  data in which a follow link leads to a replace link.\<close>

definition selfReference :: "string \<Rightarrow> string \<Rightarrow> string" where
  "selfReference word pos = (if word = ''LOOP'' then ''{loop=n}'' else [])"

definition followThenReplace :: "string \<Rightarrow> string \<Rightarrow> string" where
  "followThenReplace word pos =
     (if word = ''AA'' then ''see <bb=n>'' else if word = ''BB'' then ''lava'' else [])"

section \<open>Search conditions and the attribute store\<close>

text \<open>
  \<open>SearchCondition\<close> and \<open>SearchSpec\<close> with the fields \<open>WordEngine\<close> reads.
  \<open>OtherSearchType\<close> stands for the types that fall into the \<open>default\<close>
  branches.
\<close>

datatype SearchType =
    AnagramMatch | PatternMatch | SubanagramMatch | ConsistOf
  | Length | InWordList | NumVowels | IncludeLetters | ProbabilityOrder
  | NumUniqueLetters | PointValue | NumAnagrams
  | BelongToGroup | Prefix | Suffix | LimitByProbabilityOrder
  | OtherSearchType

record SearchCondition =
  type :: SearchType
  stringValue :: string
  minValue :: int
  maxValue :: int
  boolValue :: bool
  negated :: bool
  legacy :: bool

record SearchSpec =
  conditions :: "SearchCondition list"
  conjunction :: bool

datatype SearchSet =
    UnknownSearchSet | SetHookWords | SetFrontHooks | SetBackHooks
  | SetTypeOneSevens | SetTypeOneEights | SetTypeTwoSevens | SetTypeTwoEights
  | SetTypeThreeSevens | SetTypeThreeEights | SetEightsFromSevenLetterStems

text \<open>
  What \<open>WordEngine\<close> calls and this development does not look into:
  \<open>SearchSpec::optimize\<close>, \<open>WordGraph::search\<close> and \<open>WordGraph::containsWord\<close>,
  \<open>LetterBag::getNumCombinations\<close> (a whole number, held in a \<open>double\<close>),
  \<open>Auxil::stringToSearchSet\<close>, and the group test \<open>WordEngine::isSetMember\<close>,
  which reads the word graph, the stems and a letter bag and changes nothing.
  They are parameters: every theorem holds whatever they answer.
\<close>

record Lexicon =
  optimize :: "SearchSpec \<Rightarrow> SearchSpec"
  graphSearch :: "SearchSpec \<Rightarrow> string list"
  containsWord :: "string \<Rightarrow> bool"
  getNumCombinations :: "string \<Rightarrow> nat"
  stringToSearchSet :: "string \<Rightarrow> SearchSet"
  isSetMember :: "string \<Rightarrow> SearchSet \<Rightarrow> bool"

text \<open>\<open>WordEngine::WordInfo\<close>, and a row of the relation \<open>words\<close>, which has
  the same columns and the word length.\<close>

record WordInfo =
  word :: string
  probabilityOrder :: int
  minProbabilityOrder :: int
  maxProbabilityOrder :: int
  numVowels :: int
  numUniqueLetters :: int
  numAnagrams :: int
  pointValue :: int
  frontHooks :: string
  backHooks :: string
  definitionText :: string

record WordRow = WordInfo +
  wordLength :: int

text \<open>The database connection: whether it is open, and the rows of \<open>words\<close>.\<close>

record Database =
  isOpen :: bool
  rows :: "WordRow list"

text \<open>
  The text after \<open>WHERE\<close> that \<open>databaseSearch\<close> builds, as the sequence of
  pieces it appends: comparisons of a column with a number, \<open>word [NOT] LIKE '%c%'\<close>,
  \<open>word [NOT] IN (...)\<close>, and the connective \<open>AND\<close>.
\<close>

datatype Column =
    length_column | num_vowels | num_unique_letters | point_value | num_anagrams
  | probability_order | min_probability_order | max_probability_order

datatype Comparison = Equal | AtLeast | AtMost

datatype SqlPredicate =
    Compare Column Comparison int
  | WordLike bool char
  | WordIn bool "string list"

datatype SqlPiece = AND | Predicate SqlPredicate

fun columnValue :: "Column \<Rightarrow> WordRow \<Rightarrow> int" where
  "columnValue length_column r = wordLength r"
| "columnValue num_vowels r = numVowels r"
| "columnValue num_unique_letters r = numUniqueLetters r"
| "columnValue point_value r = pointValue r"
| "columnValue num_anagrams r = numAnagrams r"
| "columnValue probability_order r = probabilityOrder r"
| "columnValue min_probability_order r = minProbabilityOrder r"
| "columnValue max_probability_order r = maxProbabilityOrder r"

text \<open>
  The meaning of the pieces for SQLite.  \<open>LIKE\<close> ignores the case of ASCII
  letters; in its pattern a percent sign matches any text and an underscore any
  one character.
\<close>

fun holds :: "SqlPredicate \<Rightarrow> WordRow \<Rightarrow> bool" where
  "holds (Compare col Equal k) r = (columnValue col r = k)"
| "holds (Compare col AtLeast k) r = (columnValue col r \<ge> k)"
| "holds (Compare col AtMost k) r = (columnValue col r \<le> k)"
| "holds (WordLike neg c) r =
     ((if c = CHR ''%'' then True
       else if c = CHR ''_'' then word r \<noteq> []
       else toUpperChar c \<in> set (toUpper (word r))) \<noteq> neg)"
| "holds (WordIn neg ws) r = ((word r \<in> set ws) \<noteq> neg)"

text \<open>
  The text is a \<open>WHERE\<close> clause when it is a non-empty sequence of predicates
  separated by \<open>AND\<close> and no quoted operand contains a quote.  Everything
  else (a clause that is empty, starts or ends with \<open>AND\<close>, or has two in a
  row) is text that SQLite rejects.
\<close>

fun conjuncts :: "SqlPiece list \<Rightarrow> SqlPredicate list option" where
  "conjuncts [Predicate p] = Some [p]"
| "conjuncts (Predicate p # AND # ts) = map_option ((#) p) (conjuncts ts)"
| "conjuncts ts = None"

fun quotable :: "SqlPredicate \<Rightarrow> bool" where
  "quotable (Compare col cmp k) = True"
| "quotable (WordLike neg c) = (c \<noteq> CHR 0x27)"
| "quotable (WordIn neg ws) = (\<forall>w \<in> set ws. CHR 0x27 \<notin> set w)"

text \<open>
  \<open>QSqlQuery query (queryStr, db)\<close> followed by the \<open>query.next()\<close> loop
  over \<open>SELECT ... FROM words WHERE ...\<close>: the selected rows, in the order of
  the relation.  A query on a connection that is not open, or
  with text that SQLite rejects, is not active and has no row.
\<close>

definition selectRows :: "Database \<Rightarrow> SqlPiece list \<Rightarrow> WordRow list" where
  "selectRows db queryStr =
     (if \<not> isOpen db then []
      else (case conjuncts queryStr of
              None \<Rightarrow> []
            | Some ps \<Rightarrow>
                if list_all quotable ps
                then filter (\<lambda>r. list_all (\<lambda>p. holds p r) ps) (rows db)
                else []))"

definition selectWords :: "Database \<Rightarrow> SqlPiece list \<Rightarrow> string list" where
  "selectWords db queryStr = map word (selectRows db queryStr)"

text \<open>\<open>QString::split (QChar (' '))\<close>: empty parts are kept.\<close>

fun splitAt :: "char \<Rightarrow> string \<Rightarrow> string \<Rightarrow> string list" where
  "splitAt sep cur [] = [cur]"
| "splitAt sep cur (c # cs) =
     (if c = sep then cur # splitAt sep [] cs else splitAt sep (cur @ [c]) cs)"

definition split :: "char \<Rightarrow> string \<Rightarrow> string list" where
  "split sep s = splitAt sep [] s"

section \<open>databaseSearch\<close>

definition isDatabaseType :: "SearchType \<Rightarrow> bool" where
  "isDatabaseType t =
     (t \<in> {Length, InWordList, NumVowels, IncludeLetters, ProbabilityOrder,
            NumUniqueLetters, PointValue, NumAnagrams})"

text \<open>The column a numeric condition is compared with.\<close>

fun columnOf :: "SearchType \<Rightarrow> Column" where
  "columnOf NumVowels = num_vowels"
| "columnOf NumUniqueLetters = num_unique_letters"
| "columnOf PointValue = point_value"
| "columnOf NumAnagrams = num_anagrams"
| "columnOf ProbabilityOrder = probability_order"
| "columnOf t = length_column"

text \<open>\<open>column=min\<close> when the bounds are equal, otherwise
  \<open>column>=min AND column<=max\<close>.\<close>

definition rangePieces :: "Column \<Rightarrow> int \<Rightarrow> int \<Rightarrow> SqlPiece list" where
  "rangePieces col lo hi =
     (if lo = hi then [Predicate (Compare col Equal lo)]
      else [Predicate (Compare col AtLeast lo), AND, Predicate (Compare col AtMost hi)])"

text \<open>One \<open>LIKE\<close> per letter of an Include Letters condition, with \<open>AND\<close>
  before every letter but the first.\<close>

fun likePieces :: "bool \<Rightarrow> bool \<Rightarrow> string \<Rightarrow> SqlPiece list" where
  "likePieces first neg [] = []"
| "likePieces first neg (c # cs) =
     (if first then [] else [AND]) @ Predicate (WordLike neg c) # likePieces False neg cs"

text \<open>The second \<open>switch\<close> of the loop of \<open>databaseSearch\<close>: what one condition
  appends to the query text.\<close>

definition conditionPieces :: "SearchCondition \<Rightarrow> SqlPiece list" where
  "conditionPieces condition =
     (case type condition of
        ProbabilityOrder \<Rightarrow>
          if boolValue condition
          then [Predicate (Compare max_probability_order AtLeast (minValue condition)), AND,
                Predicate (Compare min_probability_order AtMost (maxValue condition))]
          else rangePieces probability_order (minValue condition) (maxValue condition)
      | Length \<Rightarrow> rangePieces length_column (minValue condition) (maxValue condition)
      | NumVowels \<Rightarrow> rangePieces num_vowels (minValue condition) (maxValue condition)
      | NumUniqueLetters \<Rightarrow>
          rangePieces num_unique_letters (minValue condition) (maxValue condition)
      | PointValue \<Rightarrow> rangePieces point_value (minValue condition) (maxValue condition)
      | NumAnagrams \<Rightarrow> rangePieces num_anagrams (minValue condition) (maxValue condition)
      | IncludeLetters \<Rightarrow> likePieces True (negated condition) (stringValue condition)
      | InWordList \<Rightarrow>
          [Predicate (WordIn (negated condition) (split (CHR '' '') (stringValue condition)))]
      | _ \<Rightarrow> [])"

text \<open>The loop over the conditions; \<open>foundCondition\<close> is the first argument.\<close>

fun conditionsPieces :: "bool \<Rightarrow> SearchCondition list \<Rightarrow> SqlPiece list" where
  "conditionsPieces foundCondition [] = []"
| "conditionsPieces foundCondition (condition # cs) =
     (if isDatabaseType (type condition)
      then (if foundCondition then [AND] else []) @ conditionPieces condition
             @ conditionsPieces True cs
      else conditionPieces condition @ conditionsPieces foundCondition cs)"

text \<open>The whole query text of \<open>databaseSearch\<close>, with the restriction to the
  upper-cased words of the word list when one is passed.\<close>

definition queryStr :: "SearchSpec \<Rightarrow> string list option \<Rightarrow> SqlPiece list" where
  "queryStr optimizedSpec wordList =
     conditionsPieces False (conditions optimizedSpec) @
     (case wordList of
        None \<Rightarrow> []
      | Some ws \<Rightarrow> [AND, Predicate (WordIn False (map toUpper ws))])"

definition upperToLower :: "string list option \<Rightarrow> (string \<rightharpoonup> string)" where
  "upperToLower wordList =
     (case wordList of
        None \<Rightarrow> Map.empty
      | Some ws \<Rightarrow> fold (\<lambda>w m. m(toUpper w \<mapsto> w)) ws Map.empty)"

definition databaseSearch :: "Database \<Rightarrow> SearchSpec \<Rightarrow> string list option \<Rightarrow> string list" where
  "databaseSearch db optimizedSpec wordList =
     map (\<lambda>w. case upperToLower wordList w of Some original \<Rightarrow> original | None \<Rightarrow> w)
       (selectWords db (queryStr optimizedSpec wordList))"

section \<open>applyPostConditions\<close>

text \<open>\<open>WordEngine::matchesConditions\<close>; \<open>isAcceptable\<close> is \<open>containsWord\<close>.\<close>

fun matchesConditions :: "Lexicon \<Rightarrow> string \<Rightarrow> SearchCondition list \<Rightarrow> bool" where
  "matchesConditions lx w [] = True"
| "matchesConditions lx w (condition # cs) =
     (case type condition of
        Prefix \<Rightarrow>
          if (\<not> containsWord lx (stringValue condition @ toUpper w)) \<noteq> negated condition
          then False else matchesConditions lx w cs
      | Suffix \<Rightarrow>
          if (\<not> containsWord lx (toUpper w @ stringValue condition)) \<noteq> negated condition
          then False else matchesConditions lx w cs
      | BelongToGroup \<Rightarrow>
          if stringToSearchSet lx (stringValue condition) = UnknownSearchSet
          then matchesConditions lx w cs
          else if (\<not> isSetMember lx (toUpper w) (stringToSearchSet lx (stringValue condition)))
                    \<noteq> negated condition
          then False else matchesConditions lx w cs
      | _ \<Rightarrow> matchesConditions lx w cs)"

text \<open>The bounds collected from the Limit by Probability Order conditions.\<close>

record ProbLimits =
  probLimitRangeCondition :: bool
  legacyProbCondition :: bool
  probLimitRangeMin :: int
  probLimitRangeMax :: int
  probLimitRangeMinLax :: int
  probLimitRangeMaxLax :: int

definition initialLimits :: ProbLimits where
  "initialLimits =
     \<lparr>probLimitRangeCondition = False, legacyProbCondition = False,
      probLimitRangeMin = 0, probLimitRangeMax = 999999,
      probLimitRangeMinLax = 0, probLimitRangeMaxLax = 999999\<rparr>"

definition noteLimit :: "SearchCondition \<Rightarrow> ProbLimits \<Rightarrow> ProbLimits" where
  "noteLimit condition l =
     (if type condition \<noteq> LimitByProbabilityOrder then l
      else
        let l1 = l\<lparr>probLimitRangeCondition := True\<rparr>;
            l2 = (if boolValue condition
                  then l1\<lparr>probLimitRangeMinLax :=
                            (if minValue condition > probLimitRangeMinLax l1
                             then minValue condition else probLimitRangeMinLax l1),
                          probLimitRangeMaxLax :=
                            (if maxValue condition < probLimitRangeMaxLax l1
                             then maxValue condition else probLimitRangeMaxLax l1)\<rparr>
                  else l1\<lparr>probLimitRangeMin :=
                            (if minValue condition > probLimitRangeMin l1
                             then minValue condition else probLimitRangeMin l1),
                          probLimitRangeMax :=
                            (if maxValue condition < probLimitRangeMax l1
                             then maxValue condition else probLimitRangeMax l1)\<rparr>)
        in if legacy condition then l2\<lparr>legacyProbCondition := True\<rparr> else l2)"

definition probLimits :: "SearchCondition list \<Rightarrow> ProbLimits" where
  "probLimits cs = fold noteLimit cs initialLimits"

text \<open>
  Modelled from the spec: \<open>Auxil::getAlphagram\<close>, whose source is not part of
  what is verified here, is the canonical sorted-letter form of a word.
\<close>

definition getAlphagram :: "string \<Rightarrow> string" where
  "getAlphagram w = sort w"

text \<open>
  \<open>sprintf ("%09.0f", x)\<close> for a whole number \<open>x\<close>: its decimal digits, filled
  with zeros on the left to nine characters, the sign of a negative number
  counting as one of them.  (A \<open>double\<close> holds every whole number of up to
  fifteen digits exactly.)
\<close>

fun decimal :: "nat \<Rightarrow> string" where
  "decimal n =
     (if n < 10 then [digitChars ! n] else decimal (n div 10) @ [digitChars ! (n mod 10)])"

declare decimal.simps [simp del]

definition zeroFill :: "nat \<Rightarrow> string \<Rightarrow> string" where
  "zeroFill width s = replicate (width - length s) (CHR ''0'') @ s"

definition sprintf09 :: "int \<Rightarrow> string" where
  "sprintf09 x =
     (if x < 0 then CHR ''-'' # zeroFill 8 (decimal (nat (- x)))
      else zeroFill 9 (decimal (nat x)))"

text \<open>The sort key of a word: \<open>1e9 - 1\<close> minus its number of combinations,
  then its alphagram unless the legacy order is asked for, then the word.\<close>

definition radix :: "Lexicon \<Rightarrow> bool \<Rightarrow> string \<Rightarrow> string" where
  "radix lx legacyOrder w =
     sprintf09 (999999999 - int (getNumCombinations lx (toUpper w)))
       @ (if \<not> legacyOrder then getAlphagram (toUpper w) else [])
       @ toUpper w"

text \<open>\<open>QMap::insert\<close> on a map kept as the list of its entries in ascending
  order of the keys: the value of a key already present is replaced.\<close>

fun qmapInsert :: "string \<Rightarrow> 'v \<Rightarrow> (string \<times> 'v) list \<Rightarrow> (string \<times> 'v) list" where
  "qmapInsert k v [] = [(k, v)]"
| "qmapInsert k v ((k', v') # m) =
     (if k < k' then (k, v) # (k', v') # m
      else if k = k' then (k, v) # m
      else (k', v') # qmapInsert k v m)"

definition probMap :: "Lexicon \<Rightarrow> bool \<Rightarrow> string list \<Rightarrow> (string \<times> string) list" where
  "probMap lx legacyOrder returnList =
     fold (\<lambda>w m. qmapInsert (radix lx legacyOrder w) w m) returnList []"

text \<open>The two loops that move the bounds of the window over keys with the
  same first nine characters; \<open>strictMin\<close> and \<open>strictMax\<close> are the strict
  bounds \<open>probLimitRangeMin\<close> and \<open>probLimitRangeMax\<close> as they stand then.\<close>

function widenMin :: "string list \<Rightarrow> string \<Rightarrow> int \<Rightarrow> int \<Rightarrow> int" where
  "widenMin keys minCombinations strictMin m =
     (if m > 0 \<and> m > strictMin
      then (if minCombinations \<noteq> take 9 (keys ! nat (m - 1)) then m
            else widenMin keys minCombinations strictMin (m - 1))
      else m)"
  by pat_completeness auto
termination
  by (relation "measure (\<lambda>(keys, c, lo, m). nat m)") auto

function widenMax :: "string list \<Rightarrow> string \<Rightarrow> int \<Rightarrow> int \<Rightarrow> int" where
  "widenMax keys maxCombinations strictMax m =
     (if m < int (length keys) - 1 \<and> m < strictMax
      then (if maxCombinations \<noteq> take 9 (keys ! nat (m + 1)) then m
            else widenMax keys maxCombinations strictMax (m + 1))
      else m)"
  by pat_completeness auto
termination
  by (relation "measure (\<lambda>(keys, c, hi, m). nat (int (length keys) - m))") auto

declare widenMin.simps [simp del]
declare widenMax.simps [simp del]

text \<open>\<open>QList::mid (pos, length)\<close>: all elements from \<open>pos\<close> when \<open>length\<close> is
  negative or reaches beyond the end.\<close>

definition mid :: "'a list \<Rightarrow> int \<Rightarrow> int \<Rightarrow> 'a list" where
  "mid xs pos len =
     (if len < 0 \<or> pos + len > int (length xs) then drop (nat pos) xs
      else take (nat len) (drop (nat pos) xs))"

text \<open>\<open>QList::operator[]\<close> with an index outside the list stops the program
  (\<open>index out of range\<close>); the search then has no result.\<close>

datatype SearchError = IndexOutOfRange

text \<open>
  The bounds after the conversion from 1-based to 0-based offsets and the
  clamping to the list: the strict and the lax lower bound are raised to 0,
  the strict and the lax upper bound lowered to the last index.
\<close>

definition rangeMin :: "ProbLimits \<Rightarrow> int" where
  "rangeMin l = (if probLimitRangeMin l - 1 < 0 then 0 else probLimitRangeMin l - 1)"

definition rangeMinLax :: "ProbLimits \<Rightarrow> int" where
  "rangeMinLax l = (if probLimitRangeMinLax l - 1 < 0 then 0 else probLimitRangeMinLax l - 1)"

definition rangeMax :: "ProbLimits \<Rightarrow> int \<Rightarrow> int" where
  "rangeMax l listSize =
     (if probLimitRangeMax l - 1 > listSize - 1 then listSize - 1 else probLimitRangeMax l - 1)"

definition rangeMaxLax :: "ProbLimits \<Rightarrow> int \<Rightarrow> int" where
  "rangeMaxLax l listSize =
     (if probLimitRangeMaxLax l - 1 > listSize - 1 then listSize - 1 else probLimitRangeMaxLax l - 1)"

text \<open>The working bounds: the higher of the lower bounds, the lower of the
  upper bounds.\<close>

definition workingMin :: "ProbLimits \<Rightarrow> int" where
  "workingMin l = (if rangeMin l > rangeMinLax l then rangeMin l else rangeMinLax l)"

definition workingMax :: "ProbLimits \<Rightarrow> int \<Rightarrow> int" where
  "workingMax l listSize =
     (if rangeMax l listSize < rangeMaxLax l listSize then rangeMax l listSize else rangeMaxLax l listSize)"

text \<open>
  The end of \<open>applyPostConditions\<close>, from \<open>QStringList keys = probMap.keys()\<close>
  on: the keys at the working bounds are read, the bounds are moved, and the
  values between them are returned.
\<close>

definition sliceWindow ::
  "(string \<times> string) list \<Rightarrow> int \<Rightarrow> int \<Rightarrow> int \<Rightarrow> int \<Rightarrow> SearchError + string list" where
  "sliceWindow pm strictMin strictMax min0 max0 =
     (let keys = map fst pm
      in if \<not> (0 \<le> min0 \<and> min0 < int (length keys)) then Inl IndexOutOfRange
         else if \<not> (0 \<le> max0 \<and> max0 < int (length keys)) then Inl IndexOutOfRange
         else
           let min1 = widenMin keys (take 9 (keys ! nat min0)) strictMin min0;
               max1 = widenMax keys (take 9 (keys ! nat max0)) strictMax max0
           in Inr (mid (map snd pm) min1 (max1 - min1 + 1)))"

definition applyPostConditions ::
  "Lexicon \<Rightarrow> SearchSpec \<Rightarrow> string list \<Rightarrow> SearchError + string list" where
  "applyPostConditions lx optimizedSpec wordList =
     (let returnList = filter (\<lambda>w. matchesConditions lx w (conditions optimizedSpec)) wordList;
          l = probLimits (conditions optimizedSpec);
          size = int (length returnList)
      in if \<not> probLimitRangeCondition l then Inr returnList
         else if probLimitRangeMin l > size \<or> probLimitRangeMinLax l > size then Inr []
         else sliceWindow (probMap lx (legacyProbCondition l) returnList)
                (rangeMin l) (rangeMax l size) (workingMin l) (workingMax l size))"

section \<open>search and the cache\<close>

text \<open>The state of a \<open>WordEngine\<close>: the database connection, the cache of
  word information, and the stems with their alphagrams, by length.\<close>

record WordEngine =
  db :: Database
  wordCache :: "string \<rightharpoonup> WordInfo"
  stems :: "int \<rightharpoonup> string list"
  stemAlphagrams :: "int \<rightharpoonup> string set"

definition clearCache :: "WordEngine \<Rightarrow> WordEngine" where
  "clearCache eng = eng\<lparr>wordCache := Map.empty\<rparr>"

definition infoOfRow :: "WordRow \<Rightarrow> WordInfo" where
  "infoOfRow r = WordInfo.truncate r"

text \<open>\<open>WordEngine::addToCache\<close>: one query for all the words, and an entry for
  every row it returns.\<close>

definition addToCache :: "WordEngine \<Rightarrow> string list \<Rightarrow> WordEngine" where
  "addToCache eng ws =
     (if ws = [] \<or> \<not> isOpen (db eng) then eng
      else eng\<lparr>wordCache :=
                 fold (\<lambda>r cache. cache(word r \<mapsto> infoOfRow r))
                   (selectRows (db eng) [Predicate (WordIn False ws)]) (wordCache eng)\<rparr>)"

text \<open>A default-constructed \<open>WordInfo\<close>.\<close>

definition noInfo :: WordInfo where
  "noInfo =
     \<lparr>word = [], probabilityOrder = 0, minProbabilityOrder = 0, maxProbabilityOrder = 0,
      numVowels = 0, numUniqueLetters = 0, numAnagrams = 0, pointValue = 0,
      frontHooks = [], backHooks = [], definitionText = []\<rparr>"

text \<open>\<open>WordEngine::getWordInfo\<close>: served from the cache when the word is
  there, otherwise read from the database with a bound parameter and cached.\<close>

definition getWordInfo :: "WordEngine \<Rightarrow> string \<Rightarrow> WordInfo \<times> WordEngine" where
  "getWordInfo eng w =
     (if w = [] then (noInfo, eng)
      else (case wordCache eng w of
              Some info \<Rightarrow> (info, eng)
            | None \<Rightarrow>
                if \<not> isOpen (db eng) then (noInfo, eng)
                else (case filter (\<lambda>r. word r = w) (rows (db eng)) of
                        [] \<Rightarrow> (noInfo, eng)
                      | r # rest \<Rightarrow>
                          (infoOfRow r,
                           eng\<lparr>wordCache := (wordCache eng)(w \<mapsto> infoOfRow r)\<rparr>))))"

text \<open>The counters of the first loop of \<open>search\<close>.\<close>

record ConditionCounts =
  postConditions :: int
  wordGraphConditions :: int
  databaseConditions :: int
  wildcardConditions :: int
  nonWildcardConditions :: int
  lengthConditions :: int

definition noConditions :: ConditionCounts where
  "noConditions =
     \<lparr>postConditions = 0, wordGraphConditions = 0, databaseConditions = 0,
      wildcardConditions = 0, nonWildcardConditions = 0, lengthConditions = 0\<rparr>"

definition countPost :: "ConditionCounts \<Rightarrow> ConditionCounts" where
  "countPost n = n\<lparr>postConditions := postConditions n + 1\<rparr>"

definition countWildcard :: "SearchCondition \<Rightarrow> ConditionCounts \<Rightarrow> ConditionCounts" where
  "countWildcard condition n =
     (if CHR ''*'' \<in> set (stringValue condition)
      then n\<lparr>wildcardConditions := wildcardConditions n + 1,
              wordGraphConditions := wordGraphConditions n + 1\<rparr>
      else n\<lparr>nonWildcardConditions := nonWildcardConditions n + 1,
              wordGraphConditions := wordGraphConditions n + 1\<rparr>)"

definition countGraph :: "ConditionCounts \<Rightarrow> ConditionCounts" where
  "countGraph n = n\<lparr>wordGraphConditions := wordGraphConditions n + 1\<rparr>"

definition countDatabase :: "ConditionCounts \<Rightarrow> ConditionCounts" where
  "countDatabase n = n\<lparr>databaseConditions := databaseConditions n + 1\<rparr>"

definition countCondition :: "SearchCondition \<Rightarrow> ConditionCounts \<Rightarrow> ConditionCounts" where
  "countCondition condition n =
     (case type condition of
        BelongToGroup \<Rightarrow> countPost n
      | Prefix \<Rightarrow> countPost n
      | Suffix \<Rightarrow> countPost n
      | LimitByProbabilityOrder \<Rightarrow> countPost n
      | AnagramMatch \<Rightarrow> countWildcard condition n
      | PatternMatch \<Rightarrow> countWildcard condition n
      | SubanagramMatch \<Rightarrow> countGraph n
      | ConsistOf \<Rightarrow> countGraph n
      | Length \<Rightarrow> countDatabase (n\<lparr>lengthConditions := lengthConditions n + 1\<rparr>)
      | InWordList \<Rightarrow> countDatabase n
      | NumVowels \<Rightarrow> countDatabase n
      | IncludeLetters \<Rightarrow> countDatabase n
      | ProbabilityOrder \<Rightarrow> countDatabase n
      | NumUniqueLetters \<Rightarrow> countDatabase n
      | PointValue \<Rightarrow> countDatabase n
      | NumAnagrams \<Rightarrow> countDatabase n
      | OtherSearchType \<Rightarrow> n)"

definition countConditions :: "SearchCondition list \<Rightarrow> ConditionCounts" where
  "countConditions cs = fold countCondition cs noConditions"

text \<open>
  The number of database conditions \<open>search\<close> goes on with: one less when
  there is a word graph condition and all database conditions are Length
  conditions.
\<close>

definition databaseConditionsLeft :: "ConditionCounts \<Rightarrow> int" where
  "databaseConditionsLeft n =
     (if wordGraphConditions n \<noteq> 0 \<and> databaseConditions n \<ge> 1
         \<and> lengthConditions n = databaseConditions n
      then databaseConditions n - 1 else databaseConditions n)"

text \<open>
  The word graph stage and the database stage of \<open>search\<close>: the list they
  leave and the query texts sent by \<open>databaseSearch\<close>.  An empty list is what
  \<open>search\<close> returns at once.
\<close>

definition searchStages ::
  "Lexicon \<Rightarrow> Database \<Rightarrow> SearchSpec \<Rightarrow> string list \<times> SqlPiece list list" where
  "searchStages lx d optimizedSpec =
     (let n = countConditions (conditions optimizedSpec);
          dbConditions = databaseConditionsLeft n;
          useGraph = (wordGraphConditions n \<noteq> 0 \<or> dbConditions = 0);
          graphList = (if useGraph then graphSearch lx optimizedSpec else [])
      in if useGraph \<and> graphList = [] then ([], [])
         else if dbConditions \<noteq> 0
         then
           let wordList = (if wordGraphConditions n \<noteq> 0 then Some graphList else None)
           in (databaseSearch d optimizedSpec wordList, [queryStr optimizedSpec wordList])
         else (graphList, []))"

text \<open>What a call of \<open>search\<close> leaves: the list it returns, the engine with
  its cache, and the query texts \<open>databaseSearch\<close> has sent.\<close>

record SearchOutcome =
  resultList :: "string list"
  engineAfter :: WordEngine
  databaseQueries :: "SqlPiece list list"

definition search ::
  "Lexicon \<Rightarrow> WordEngine \<Rightarrow> SearchSpec \<Rightarrow> bool \<Rightarrow> SearchError + SearchOutcome" where
  "search lx eng spec allCaps =
     (let optimizedSpec = optimize lx spec;
          n = countConditions (conditions optimizedSpec);
          (stageList, queries) = searchStages lx (db eng) optimizedSpec
      in if stageList = []
         then Inr \<lparr>resultList = [], engineAfter = eng, databaseQueries = queries\<rparr>
         else
           (case (if postConditions n \<noteq> 0
                  then applyPostConditions lx optimizedSpec stageList
                  else Inr stageList) of
              Inl e \<Rightarrow> Inl e
            | Inr postList \<Rightarrow>
                let finalList = (if allCaps then map toUpper postList else postList)
                in Inr \<lparr>resultList = finalList,
                        engineAfter =
                          (if finalList \<noteq> [] then addToCache (clearCache eng) finalList
                           else eng),
                        databaseQueries = queries\<rparr>))"

text \<open>
  The query texts \<open>addToCache\<close> sends: one \<open>SELECT ... WHERE word IN (...)\<close>
  for the words, unless the list is empty or the database is not open.
\<close>

definition cacheQueries :: "WordEngine \<Rightarrow> string list \<Rightarrow> SqlPiece list list" where
  "cacheQueries eng ws =
     (if ws = [] \<or> \<not> isOpen (db eng) then [] else [[Predicate (WordIn False ws)]])"


section \<open>importStems\<close>

text \<open>\<open>QChar::isSpace\<close> on the ASCII range: space, tab, line feed, vertical
  tab, form feed, carriage return.\<close>

definition isSpace :: "char \<Rightarrow> bool" where
  "isSpace c = (c \<in> {CHR 0x20, CHR 0x09, CHR 0x0A, CHR 0x0B, CHR 0x0C, CHR 0x0D})"

text \<open>The maximal runs of characters that are not white space; \<open>cur\<close> is the
  run being read.\<close>

fun spaceSeparated :: "string \<Rightarrow> string \<Rightarrow> string list" where
  "spaceSeparated cur [] = (if cur = [] then [] else [cur])"
| "spaceSeparated cur (c # cs) =
     (if isSpace c then (if cur = [] then spaceSeparated [] cs else cur # spaceSeparated [] cs)
      else spaceSeparated (cur @ [c]) cs)"

fun joinWithSpace :: "string list \<Rightarrow> string" where
  "joinWithSpace [] = []"
| "joinWithSpace [t] = t"
| "joinWithSpace (t # ts) = t @ CHR '' '' # joinWithSpace ts"

text \<open>\<open>QString::simplified\<close>: white space removed from both ends, and every
  run of white space inside replaced by one space.\<close>

definition simplified :: "string \<Rightarrow> string" where
  "simplified s = joinWithSpace (spaceSeparated [] s)"

text \<open>\<open>line.section (' ', 0, 0)\<close>: the text before the first space.\<close>

definition firstSection :: "string \<Rightarrow> string" where
  "firstSection line = takeWhile (\<lambda>c. c \<noteq> CHR '' '') line"

text \<open>The local variables of the reading loop of \<open>importStems\<close>.\<close>

record StemScan =
  scanWords :: "string list"
  scanAlphagrams :: "string set"
  imported :: int
  stemLength :: int

definition scanStart :: StemScan where
  "scanStart = \<lparr>scanWords = [], scanAlphagrams = {}, imported = 0, stemLength = 0\<rparr>"

text \<open>The body of the loop, for one text delivered by \<open>readLine\<close>.\<close>

definition scanLine :: "string \<Rightarrow> StemScan \<Rightarrow> StemScan" where
  "scanLine buffer st =
     (let line = simplified buffer in
      if line = [] \<or> hd line = CHR ''#'' then st
      else
        let w = firstSection line;
            st1 = (if stemLength st = 0 then st\<lparr>stemLength := int (length w)\<rparr> else st)
        in if stemLength st1 \<noteq> int (length w) then st1
           else st1\<lparr>scanWords := scanWords st1 @ [w],
                    scanAlphagrams := insert (getAlphagram w) (scanAlphagrams st1),
                    imported := imported st1 + 1\<rparr>)"

text \<open>
  The second half of \<open>importStems\<close> looks the length up in \<open>stemAlphagrams\<close>
  and inserts through the iterator without testing it; with alphagrams to
  insert and no entry there, that is a dereferenced end iterator.
\<close>

datatype ImportError = EndIteratorDereferenced

text \<open>
  \<open>WordEngine::importStems\<close>.  The file is \<open>None\<close> when it cannot be opened,
  otherwise the texts that \<open>readLine\<close> delivers, in order.  The result is the
  returned number and the engine.  \<open>std::map::insert\<close> leaves an entry that is
  already there as it is.
\<close>

definition importStems ::
  "WordEngine \<Rightarrow> string list option \<Rightarrow> ImportError + (int \<times> WordEngine)" where
  "importStems eng file =
     (case file of
        None \<Rightarrow> Inr (- 1, eng)
      | Some buffers \<Rightarrow>
          let st = fold scanLine buffers scanStart;
              len = stemLength st
          in (case stems eng len of
                None \<Rightarrow>
                  Inr (imported st,
                       eng\<lparr>stems := (stems eng)(len \<mapsto> scanWords st),
                           stemAlphagrams :=
                             (case stemAlphagrams eng len of
                                None \<Rightarrow> (stemAlphagrams eng)(len \<mapsto> scanAlphagrams st)
                              | Some present \<Rightarrow> stemAlphagrams eng)\<rparr>)
              | Some present \<Rightarrow>
                  (case stemAlphagrams eng len of
                     None \<Rightarrow>
                       if scanAlphagrams st = {}
                       then Inr (imported st,
                                 eng\<lparr>stems := (stems eng)(len \<mapsto> present @ scanWords st)\<rparr>)
                       else Inl EndIteratorDereferenced
                   | Some alphagrams \<Rightarrow>
                       Inr (imported st,
                            eng\<lparr>stems := (stems eng)(len \<mapsto> present @ scanWords st),
                                stemAlphagrams :=
                                  (stemAlphagrams eng)
                                    (len \<mapsto> alphagrams \<union> scanAlphagrams st)\<rparr>))))"

text \<open>
  The words of the claim about \<open>importStems\<close>: the entries of a file are the
  first white-space-delimited tokens of its lines that are neither empty nor
  comments; the accepted ones are those as long as the first entry.
\<close>

definition entries :: "string list \<Rightarrow> string list" where
  "entries buffers =
     map (\<lambda>ts. hd ts)
       (filter (\<lambda>ts. ts \<noteq> [] \<and> hd (hd ts) \<noteq> CHR ''#'') (map (spaceSeparated []) buffers))"

definition accepted :: "string list \<Rightarrow> string list" where
  "accepted buffers =
     filter (\<lambda>w. length w = length (hd (entries buffers))) (entries buffers)"

definition fileLength :: "string list \<Rightarrow> int" where
  "fileLength buffers = (if entries buffers = [] then 0 else int (length (hd (entries buffers))))"

definition isEntry :: "string \<Rightarrow> bool" where
  "isEntry buffer \<longleftrightarrow>
     spaceSeparated [] buffer \<noteq> [] \<and> hd (hd (spaceSeparated [] buffer)) \<noteq> CHR ''#''"

text \<open>The state of the reading loop after it has taken the words \<open>ws\<close> at
  the stem length \<open>len\<close>.\<close>

definition scanned :: "StemScan \<Rightarrow> int \<Rightarrow> string list \<Rightarrow> StemScan" where
  "scanned st len ws =
     st\<lparr>stemLength := len, scanWords := scanWords st @ ws,
        scanAlphagrams := scanAlphagrams st \<union> getAlphagram ` set ws,
        imported := imported st + int (length ws)\<rparr>"

text \<open>Two files of six-letter stems; the first has a comment, an empty line
  and a seven-letter word, the second a three-letter word.\<close>

definition stemFile6a :: "string list" where
  "stemFile6a = [''AEINST extra'' @ [CHR 0x0A], ''# stems'' @ [CHR 0x0A], [CHR 0x0A],
                 ''  SATIRE'' @ [CHR 0x0A], ''RETINAS'' @ [CHR 0x0A]]"

definition stemFile6b :: "string list" where
  "stemFile6b = [''SENIOR'' @ [CHR 0x09] @ ''x'' @ [CHR 0x0A], ''TOO'' @ [CHR 0x0A]]"

section \<open>The letter bag\<close>

text \<open>
  Modelled from the spec: \<open>LetterBag::getNumCombinations\<close>, whose source is not
  part of what is verified here, is the number of ways the tiles of a word can
  be drawn from the reference bag: for every letter the number of ways to
  choose as many tiles as the word has of it from the bag's supply of that
  letter, these numbers multiplied, and the products summed over every way of
  letting blanks stand for letters of the word, with the number of ways to
  choose those blanks among the blanks of the bag.  The supply is that of the
  letter bag of \<open>isSetMember\<close>.
\<close>

definition letterSupply :: "(char \<times> nat) list" where
  "letterSupply =
     [(CHR ''A'', 9), (CHR ''B'', 2), (CHR ''C'', 2), (CHR ''D'', 4), (CHR ''E'', 12),
      (CHR ''F'', 2), (CHR ''G'', 3), (CHR ''H'', 2), (CHR ''I'', 9), (CHR ''J'', 1),
      (CHR ''K'', 1), (CHR ''L'', 4), (CHR ''M'', 2), (CHR ''N'', 6), (CHR ''O'', 8),
      (CHR ''P'', 2), (CHR ''Q'', 1), (CHR ''R'', 6), (CHR ''S'', 4), (CHR ''T'', 6),
      (CHR ''U'', 4), (CHR ''V'', 2), (CHR ''W'', 2), (CHR ''X'', 1), (CHR ''Y'', 2),
      (CHR ''Z'', 1), (CHR ''_'', 2)]"

definition supplyOf :: "char \<Rightarrow> nat" where
  "supplyOf c = (case map_of letterSupply c of Some n \<Rightarrow> n | None \<Rightarrow> 0)"

text \<open>The letters of a word, each with the number of its occurrences.\<close>

definition letterCounts :: "string \<Rightarrow> (char \<times> nat) list" where
  "letterCounts w = map (\<lambda>c. (c, count_list w c)) (remdups w)"

text \<open>
  \<open>ways ! b\<close> is the number of ways to draw the letters looked at so far with
  \<open>b\<close> of their tiles being blanks; \<open>addLetter\<close> takes one more letter, of which
  \<open>j\<close> tiles are blanks and the others come from the supply of the letter.
\<close>

definition addLetter :: "char \<times> nat \<Rightarrow> nat list \<Rightarrow> nat list" where
  "addLetter ck ways =
     map (\<lambda>b. sum_list (map (\<lambda>j. (supplyOf (fst ck) choose (snd ck - j)) * ways ! (b - j))
                          [0 ..< Suc (min b (snd ck))]))
       [0 ..< length ways]"

definition numCombinations :: "string \<Rightarrow> nat" where
  "numCombinations w =
     (let blanks = supplyOf (CHR ''_'');
          ways = fold addLetter (letterCounts w) (1 # replicate blanks 0)
      in sum_list (map (\<lambda>b. (blanks choose b) * ways ! b) [0 ..< Suc blanks]))"

section \<open>The ranking order\<close>

text \<open>
  The order of the sort keys when no number of combinations exceeds
  999,999,999: more combinations first; among equals the alphagram followed by
  the word, compared as one text, or the word alone in the legacy order.
\<close>

definition rankedBefore :: "Lexicon \<Rightarrow> bool \<Rightarrow> string \<Rightarrow> string \<Rightarrow> bool" where
  "rankedBefore lx legacyOrder a b \<longleftrightarrow>
     getNumCombinations lx (toUpper a) > getNumCombinations lx (toUpper b) \<or>
     (getNumCombinations lx (toUpper a) = getNumCombinations lx (toUpper b) \<and>
      (if legacyOrder then toUpper a < toUpper b
       else getAlphagram (toUpper a) @ toUpper a < getAlphagram (toUpper b) @ toUpper b))"

text \<open>The ranking in the words of the specification: number of combinations
  descending, then alphagram ascending, then word ascending; in the legacy
  order the word alone after the number.\<close>

definition rankedBeforeAsStated :: "Lexicon \<Rightarrow> bool \<Rightarrow> string \<Rightarrow> string \<Rightarrow> bool" where
  "rankedBeforeAsStated lx legacyOrder a b \<longleftrightarrow>
     getNumCombinations lx (toUpper a) > getNumCombinations lx (toUpper b) \<or>
     (getNumCombinations lx (toUpper a) = getNumCombinations lx (toUpper b) \<and>
      (if legacyOrder then toUpper a < toUpper b
       else getAlphagram (toUpper a) < getAlphagram (toUpper b) \<or>
            (getAlphagram (toUpper a) = getAlphagram (toUpper b) \<and> toUpper a < toUpper b)))"

text \<open>The last \<open>k\<close> decimal digits of a number.\<close>

fun fixedDigits :: "nat \<Rightarrow> nat \<Rightarrow> string" where
  "fixedDigits 0 n = []"
| "fixedDigits (Suc k) n = fixedDigits k (n div 10) @ [digitChars ! (n mod 10)]"

section \<open>A small lexicon and two engines\<close>

text \<open>
  The lexicon of CARE and RACE.  Its optimizer adds one Length condition, with
  the length of the first pattern, to a specification that has a Pattern Match
  condition and no Length condition, and leaves every other specification as
  it is; its word graph answers Pattern Match (with the one-letter wild card)
  and Anagram Match conditions and honours Length conditions.  Both words can
  be drawn in 1296 ways.
\<close>

definition newCondition :: "SearchType \<Rightarrow> string \<Rightarrow> int \<Rightarrow> int \<Rightarrow> SearchCondition" where
  "newCondition t s lo hi =
     \<lparr>type = t, stringValue = s, minValue = lo, maxValue = hi,
      boolValue = False, negated = False, legacy = False\<rparr>"

definition lengthOfPattern :: "SearchCondition \<Rightarrow> SearchCondition" where
  "lengthOfPattern c =
     newCondition Length [] (int (length (stringValue c))) (int (length (stringValue c)))"

definition graphMatches :: "SearchCondition \<Rightarrow> string \<Rightarrow> bool" where
  "graphMatches c w =
     (case type c of
        PatternMatch \<Rightarrow> list_all2 (\<lambda>p x. p = CHR ''?'' \<or> p = x) (stringValue c) w
      | AnagramMatch \<Rightarrow> sort (stringValue c) = sort w
      | Length \<Rightarrow> minValue c \<le> int (length w) \<and> int (length w) \<le> maxValue c
      | _ \<Rightarrow> True)"

definition careRace :: Lexicon where
  "careRace =
     \<lparr>optimize = (\<lambda>s.
          if list_ex (\<lambda>c. type c = PatternMatch) (conditions s)
             \<and> \<not> list_ex (\<lambda>c. type c = Length) (conditions s)
          then s\<lparr>conditions := conditions s @
            [lengthOfPattern (hd (filter (\<lambda>c. type c = PatternMatch) (conditions s)))]\<rparr>
          else s),
      graphSearch = (\<lambda>s. filter (\<lambda>w. list_all (\<lambda>c. graphMatches c w) (conditions s))
          [''CARE'', ''RACE'']),
      containsWord = (\<lambda>w. w = ''CARE'' \<or> w = ''RACE''),
      getNumCombinations = (\<lambda>w. 1296),
      stringToSearchSet = (\<lambda>s. UnknownSearchSet),
      isSetMember = (\<lambda>w ss. False)\<rparr>"

definition rowOf :: "string \<Rightarrow> int \<Rightarrow> WordRow" where
  "rowOf w order =
     \<lparr>word = w, probabilityOrder = order, minProbabilityOrder = 1, maxProbabilityOrder = 2,
      numVowels = 2, numUniqueLetters = 4, numAnagrams = 2, pointValue = 6,
      frontHooks = ''s'', backHooks = ''drs'', definitionText = [],
      wordLength = int (length w)\<rparr>"

text \<open>An engine connected to the database of the two words, and one that was
  never connected and still holds the cache entry of CARE.\<close>

definition openEngine :: WordEngine where
  "openEngine =
     \<lparr>db = \<lparr>isOpen = True, rows = [rowOf ''CARE'' 1, rowOf ''RACE'' 2]\<rparr>,
      wordCache = Map.empty, stems = Map.empty, stemAlphagrams = Map.empty\<rparr>"

definition closedEngine :: WordEngine where
  "closedEngine =
     \<lparr>db = \<lparr>isOpen = False, rows = []\<rparr>,
      wordCache = [''CARE'' \<mapsto> infoOfRow (rowOf ''CARE'' 1)],
      stems = Map.empty, stemAlphagrams = Map.empty\<rparr>"

definition specOf :: "SearchCondition list \<Rightarrow> SearchSpec" where
  "specOf cs = \<lparr>conditions = cs, conjunction = True\<rparr>"

text \<open>
  A lexicon with the numbers of combinations of the letter bag and no
  optimizer: two words of fifteen different letters and four short words.
\<close>

definition bagWords :: Lexicon where
  "bagWords =
     \<lparr>optimize = (\<lambda>s. s),
      graphSearch = (\<lambda>s. [''CARE'', ''HYDROPNEUMATICS'', ''LION'', ''QUIZ'', ''RACE'',
                           ''UNCOPYRIGHTABLE'']),
      containsWord = (\<lambda>w. w \<in> set [''CARE'', ''HYDROPNEUMATICS'', ''LION'', ''QUIZ'', ''RACE'',
                                     ''UNCOPYRIGHTABLE'']),
      getNumCombinations = numCombinations,
      stringToSearchSet = (\<lambda>s. UnknownSearchSet),
      isSetMember = (\<lambda>w ss. False)\<rparr>"

definition limitOnly :: "int \<Rightarrow> int \<Rightarrow> bool \<Rightarrow> SearchSpec" where
  "limitOnly lo hi lax =
     specOf [(newCondition LimitByProbabilityOrder [] lo hi)\<lparr>boolValue := lax\<rparr>]"

text \<open>Specifications: Pattern Match conditions alone, a pattern with a Number
  of Vowels condition, and an Anagram Match of CARE with a Limit by Probability
  Order condition.\<close>

definition patterns :: "string list \<Rightarrow> SearchSpec" where
  "patterns ps = specOf (map (\<lambda>p. newCondition PatternMatch p 0 0) ps)"

definition patternWithVowels :: SearchSpec where
  "patternWithVowels =
     specOf [newCondition PatternMatch ''CA?E'' 0 0, newCondition NumVowels [] 2 2]"

definition anagramWithLimit :: "int \<Rightarrow> int \<Rightarrow> bool \<Rightarrow> SearchSpec" where
  "anagramWithLimit lo hi lax =
     specOf [newCondition AnagramMatch ''CARE'' 0 0,
             (newCondition LimitByProbabilityOrder [] lo hi)\<lparr>boolValue := lax\<rparr>]"

text \<open>The numeric-range conditions of the attribute store, in the words of
  the claim about collapsed ranges.\<close>

definition isRangeCondition :: "SearchCondition \<Rightarrow> bool" where
  "isRangeCondition c \<longleftrightarrow>
     type c \<in> {Length, NumVowels, NumUniqueLetters, PointValue, NumAnagrams} \<or>
     (type c = ProbabilityOrder \<and> \<not> boolValue c)"

text \<open>Two predicate lists select the same rows and are accepted alike.\<close>

definition sameSelection :: "SqlPredicate list \<Rightarrow> SqlPredicate list \<Rightarrow> bool" where
  "sameSelection ps qs \<longleftrightarrow>
     (\<forall>r. list_all (\<lambda>p. holds p r) ps = list_all (\<lambda>p. holds p r) qs) \<and>
     list_all quotable ps = list_all quotable qs"

text \<open>
  What the loop of \<open>databaseSearch\<close> has written when it reaches a condition
  of the attribute store that comes after the conditions \<open>before\<close>, and what
  it writes after that condition: the pieces of the conditions \<open>after\<close> and
  the restriction to the word list.
\<close>

definition piecesBefore :: "SearchCondition list \<Rightarrow> SqlPiece list" where
  "piecesBefore before =
     conditionsPieces False before @
     (if list_ex (\<lambda>b. isDatabaseType (type b)) before then [AND] else [])"

definition piecesAfter :: "SearchCondition list \<Rightarrow> string list option \<Rightarrow> SqlPiece list" where
  "piecesAfter after wordList =
     conditionsPieces True after @
     (case wordList of
        None \<Rightarrow> []
      | Some ws \<Rightarrow> [AND, Predicate (WordIn False (map toUpper ws))])"

text \<open>A database with words of two, four and five letters.\<close>

definition mixedLengths :: Database where
  "mixedLengths =
     \<lparr>isOpen = True,
      rows = [rowOf ''AT'' 1, rowOf ''CARE'' 2, rowOf ''CARES'' 3, rowOf ''RACE'' 4,
              rowOf ''TEAM'' 5]\<rparr>"

section \<open>Properties of the definition resolver\<close>

lemma linkStep_depth:
  "linkStep sub defn maxDepth useFollow = Recurse modified depth follow \<Longrightarrow>
   maxDepth \<noteq> 0 \<and> depth = maxDepth - 1"
  by (auto simp: linkStep_def Let_def split: option.splits prod.splits if_splits)

lemma linkStep_zero:
  "linkStep sub defn 0 useFollow =
     Return (case findLink defn of
               None \<Rightarrow> defn
             | Some (f, m) \<Rightarrow> replaceAt defn (index m) (matchedLength m) (cap1 m))"
  by (simp add: linkStep_def replacement_def Let_def split: option.splits prod.splits)

lemma replaceDefinitionLinks_total:
  "\<exists>s. replaceDefinitionLinks sub defn (int k) useFollow = Some s"
proof (induction k arbitrary: defn useFollow)
  case 0
  show ?case
    by (subst replaceDefinitionLinks.simps) (simp add: linkStep_zero)
next
  case (Suc k)
  show ?case
  proof (cases "linkStep sub defn (int (Suc k)) useFollow")
    case (Return s)
    then show ?thesis
      by (subst replaceDefinitionLinks.simps) simp
  next
    case (Recurse modified depth follow)
    then have "depth = int k"
      using linkStep_depth [OF Recurse] by simp
    with Suc.IH [of modified follow] Recurse show ?thesis
      by (subst replaceDefinitionLinks.simps) simp
  qed
qed

text \<open>
  C5.  For every definition text, every definition data (also cyclic or
  self-referencing) and every \<open>maxDepth \<ge> 0\<close>, \<open>replaceDefinitionLinks\<close>
  returns a string; and at \<open>maxDepth = 0\<close> the result is the text with the
  remaining link, if any, replaced by its literal word, whatever the definition
  data says: nothing is expanded.
\<close>

theorem replaceDefinitionLinks_terminates:
  assumes "0 \<le> maxDepth"
  shows "(\<exists>s. replaceDefinitionLinks sub defn maxDepth useFollow = Some s) \<and>
         replaceDefinitionLinks sub defn 0 useFollow =
           Some (case findLink defn of
                   None \<Rightarrow> defn
                 | Some (f, m) \<Rightarrow> replaceAt defn (index m) (matchedLength m) (cap1 m))"
proof
  from assms obtain k where "maxDepth = int k"
    using nonneg_int_cases by blast
  then show "\<exists>s. replaceDefinitionLinks sub defn maxDepth useFollow = Some s"
    using replaceDefinitionLinks_total [of sub defn k useFollow] by simp
next
  show "replaceDefinitionLinks sub defn 0 useFollow =
           Some (case findLink defn of
                   None \<Rightarrow> defn
                 | Some (f, m) \<Rightarrow> replaceAt defn (index m) (matchedLength m) (cap1 m))"
    by (subst replaceDefinitionLinks.simps) (simp add: linkStep_zero)
qed

theorem replaceDefinitionLinks_terminates_witness:
  "(0::int) \<le> 3 \<and>
   (\<exists>s. replaceDefinitionLinks selfReference ''{loop=n}'' 3 False = Some s) \<and>
   replaceDefinitionLinks selfReference ''see {loop=n}'' 0 False = Some ''see loop''"
proof -
  have f: "findLink ''see {loop=n}'' =
      Some (True, \<lparr>index = 4, cap1 = ''loop'', cap2 = ''n'', matchedLength = 8\<rparr>)"
    by (simp add: findLink_def matchLinkAt_def isWordChar_def lowerLetters_def
        upperLetters_def digitChars_def)
  have z: "replaceDefinitionLinks selfReference ''see {loop=n}'' 0 False = Some ''see loop''"
    using replaceDefinitionLinks_terminates [of 3 selfReference "''see {loop=n}''" False]
    by (simp add: f replaceAt_def)
  show ?thesis
    using replaceDefinitionLinks_terminates [of 3 selfReference "''{loop=n}''" False] z
    by simp
qed

lemma selfReference_expansion:
  "replaceDefinitionLinks selfReference ''{loop=n}'' 3 False =
     Some ''loop (loop (loop (loop)))''"
  by (simp add: replaceDefinitionLinks.simps linkStep_def findLink_def matchLinkAt_def
      isWordChar_def lowerLetters_def upperLetters_def digitChars_def replaceAt_def
      replacement_def selfReference_def toUpper_def toUpperChar_def Let_def)

lemma calls_keeps_follow:
  "calls sub (defn, maxDepth, True) (modified, depth, follow) \<Longrightarrow> follow"
  by (auto elim!: calls.cases simp: linkStep_def Let_def
      split: option.splits prod.splits if_splits)

lemma calls_sets_follow:
  "findLink defn = Some (True, m) \<Longrightarrow>
   calls sub (defn, maxDepth, useFollow) (modified, depth, follow) \<Longrightarrow> follow"
  by (auto elim!: calls.cases simp: linkStep_def Let_def split: if_splits)

lemma chain_keeps_follow:
  "(calls sub)\<^sup>*\<^sup>* a b \<Longrightarrow> snd (snd a) \<Longrightarrow> snd (snd b)"
proof (induction rule: rtranclp_induct)
  case base
  then show ?case .
next
  case (step y z)
  then have "snd (snd y)" by simp
  with step.hyps(2) show ?case
    using calls_keeps_follow [of sub "fst y" "fst (snd y)" "fst z" "fst (snd z)" "snd (snd z)"]
    by (cases y, cases z) auto
qed

text \<open>
  C6.  Once the follow expression has matched in an activation of
  \<open>replaceDefinitionLinks\<close>, every activation deeper in that call chain runs
  with \<open>useFollow = True\<close> and passes \<open>True\<close> on (the flag is never reset), and
  a deeper activation that meets a link of the replace form substitutes it in
  the follow style: the text it goes on with has, in the place of the link, the
  sub-definition alone, or the word as written when there is none or the depth
  is used up, never the upper-cased word followed by a comma and the
  sub-definition.
\<close>

theorem useFollow_sticky:
  assumes "findLink defn = Some (True, m)"
    and "(calls sub)\<^sup>+\<^sup>+ (defn, maxDepth, useFollow) (defn', maxDepth', useFollow')"
  shows "useFollow' \<and>
         (\<forall>d n u. (calls sub)\<^sup>*\<^sup>* (defn', maxDepth', useFollow') (d, n, u) \<longrightarrow> u) \<and>
         (\<forall>m'. findLink defn' = Some (False, m') \<longrightarrow>
            linkStep sub defn' maxDepth' useFollow' =
              (let subdef = sub (toUpper (cap1 m')) (cap2 m');
                   modified = replaceAt defn' (index m') (matchedLength m')
                     (if maxDepth' = 0 \<or> subdef = [] then cap1 m' else subdef)
               in if maxDepth' \<noteq> 0 then Recurse modified (maxDepth' - 1) True
                  else Return modified)) \<and>
         replacement sub False useFollow' maxDepth' w p =
           (if maxDepth' = 0 \<or> sub (toUpper w) p = [] then w
            else sub (toUpper w) p)"
proof -
  from assms(2) obtain b where first: "calls sub (defn, maxDepth, useFollow) b"
    and rest: "(calls sub)\<^sup>*\<^sup>* b (defn', maxDepth', useFollow')"
    by (auto dest: tranclpD)
  obtain d1 n1 u1 where b: "b = (d1, n1, u1)"
    by (cases b) auto
  have "u1"
    using calls_sets_follow [OF assms(1)] first unfolding b by blast
  then have u: "useFollow'"
    using chain_keeps_follow [OF rest] by (simp add: b)
  have deeper: "\<forall>d n u. (calls sub)\<^sup>*\<^sup>* (defn', maxDepth', useFollow') (d, n, u) \<longrightarrow> u"
    using chain_keeps_follow u by fastforce
  have style: "replacement sub False useFollow' maxDepth' v q =
           (if maxDepth' = 0 \<or> sub (toUpper v) q = [] then v
            else sub (toUpper v) q)" for v q
    using u by (simp add: replacement_def Let_def)
  have step: "\<forall>m'. findLink defn' = Some (False, m') \<longrightarrow>
            linkStep sub defn' maxDepth' useFollow' =
              (let subdef = sub (toUpper (cap1 m')) (cap2 m');
                   modified = replaceAt defn' (index m') (matchedLength m')
                     (if maxDepth' = 0 \<or> subdef = [] then cap1 m' else subdef)
               in if maxDepth' \<noteq> 0 then Recurse modified (maxDepth' - 1) True
                  else Return modified)"
    using u by (simp add: linkStep_def replacement_def Let_def)
  from u deeper step style show ?thesis by blast
qed

lemma followThenReplace_first_call:
  "calls followThenReplace (''{aa=n}'', 2, False) (''aa (see <bb=n>)'', 1, True)"
proof -
  have "linkStep followThenReplace ''{aa=n}'' 2 False = Recurse ''aa (see <bb=n>)'' 1 True"
    by (simp add: linkStep_def findLink_def matchLinkAt_def isWordChar_def lowerLetters_def
        upperLetters_def digitChars_def replaceAt_def replacement_def followThenReplace_def
        toUpper_def toUpperChar_def Let_def)
  then show ?thesis by (rule calls.call)
qed

theorem useFollow_sticky_witness:
  "findLink ''{aa=n}'' =
     Some (True, \<lparr>index = 0, cap1 = ''aa'', cap2 = ''n'', matchedLength = 6\<rparr>) \<and>
   (calls followThenReplace)\<^sup>+\<^sup>+ (''{aa=n}'', 2, False) (''aa (see <bb=n>)'', 1, True) \<and>
   findLink ''aa (see <bb=n>)'' =
     Some (False, \<lparr>index = 8, cap1 = ''bb'', cap2 = ''n'', matchedLength = 6\<rparr>) \<and>
   linkStep followThenReplace ''aa (see <bb=n>)'' 1 True = Recurse ''aa (see lava)'' 0 True \<and>
   replacement followThenReplace False True 1 ''bb'' ''n'' = ''lava'' \<and>
   replaceDefinitionLinks followThenReplace ''{aa=n}'' 2 False = Some ''aa (see lava)''"
proof -
  have f: "findLink ''{aa=n}'' =
     Some (True, \<lparr>index = 0, cap1 = ''aa'', cap2 = ''n'', matchedLength = 6\<rparr>)"
    by (simp add: findLink_def matchLinkAt_def isWordChar_def lowerLetters_def
        upperLetters_def digitChars_def)
  have c: "(calls followThenReplace)\<^sup>+\<^sup>+ (''{aa=n}'', 2, False) (''aa (see <bb=n>)'', 1, True)"
    using followThenReplace_first_call by (rule tranclp.r_into_trancl)
  have g: "findLink ''aa (see <bb=n>)'' =
     Some (False, \<lparr>index = 8, cap1 = ''bb'', cap2 = ''n'', matchedLength = 6\<rparr>)"
    by (simp add: findLink_def matchLinkAt_def isWordChar_def lowerLetters_def
        upperLetters_def digitChars_def)
  have s: "linkStep followThenReplace ''aa (see <bb=n>)'' 1 True =
     Recurse ''aa (see lava)'' 0 True"
    using useFollow_sticky [OF f c, of "''bb''" "''n''"] g
    by (simp add: followThenReplace_def toUpper_def toUpperChar_def lowerLetters_def
        upperLetters_def replaceAt_def Let_def)
  have r: "replacement followThenReplace False True 1 ''bb'' ''n'' = ''lava''"
    by (simp add: replacement_def followThenReplace_def toUpper_def toUpperChar_def
        lowerLetters_def upperLetters_def Let_def)
  have e: "replaceDefinitionLinks followThenReplace ''{aa=n}'' 2 False = Some ''aa (see lava)''"
    by (simp add: replaceDefinitionLinks.simps linkStep_def findLink_def matchLinkAt_def
        isWordChar_def lowerLetters_def upperLetters_def digitChars_def replaceAt_def
        replacement_def followThenReplace_def toUpper_def toUpperChar_def Let_def)
  from f c g s r e show ?thesis by blast
qed

section \<open>Evaluation on the small lexicon\<close>

lemmas string_eval = toUpper_def toUpperChar_def lowerLetters_def upperLetters_def
  digitChars_def

lemmas fixture_eval = careRace_def openEngine_def closedEngine_def specOf_def newCondition_def
  lengthOfPattern_def graphMatches_def rowOf_def anagramWithLimit_def patterns_def
  patternWithVowels_def bagWords_def limitOnly_def

lemmas search_eval = search_def searchStages_def countConditions_def countCondition_def
  countWildcard_def countDatabase_def countPost_def countGraph_def noConditions_def
  databaseConditionsLeft_def databaseSearch_def selectWords_def selectRows_def queryStr_def
  upperToLower_def isDatabaseType_def conditionPieces_def rangePieces_def Let_def

lemmas post_eval = applyPostConditions_def probLimits_def noteLimit_def initialLimits_def
  rangeMin_def rangeMinLax_def rangeMax_def rangeMaxLax_def workingMin_def workingMax_def
  sliceWindow_def probMap_def radix_def sprintf09_def zeroFill_def decimal.simps getAlphagram_def mid_def
  widenMin.simps widenMax.simps

section \<open>Properties of search\<close>

lemma fold_count_post:
  "postConditions (fold countCondition cs n) =
     postConditions n + int (length (filter (\<lambda>c. type c \<in>
       {BelongToGroup, Prefix, Suffix, LimitByProbabilityOrder}) cs))"
  by (induction cs arbitrary: n)
     (auto simp: countCondition_def countPost_def countWildcard_def countGraph_def
        countDatabase_def split: SearchType.splits)





lemma limit_counts_as_post:
  assumes "c \<in> set cs" "type c = LimitByProbabilityOrder"
  shows "postConditions (countConditions cs) \<noteq> 0"
proof -
  have "c \<in> set (filter (\<lambda>c. type c \<in>
      {BelongToGroup, Prefix, Suffix, LimitByProbabilityOrder}) cs)"
    using assms by simp
  then have "length (filter (\<lambda>c. type c \<in>
      {BelongToGroup, Prefix, Suffix, LimitByProbabilityOrder}) cs) \<noteq> 0"
    by (metis length_0_conv empty_iff list.set(1))
  then show ?thesis
    by (simp add: countConditions_def fold_count_post noConditions_def)
qed

lemma noteLimit_mono:
  "probLimitRangeMin l \<le> probLimitRangeMin (noteLimit c l) \<and>
   probLimitRangeMinLax l \<le> probLimitRangeMinLax (noteLimit c l) \<and>
   (probLimitRangeCondition l \<longrightarrow> probLimitRangeCondition (noteLimit c l))"
  by (simp add: noteLimit_def Let_def)

lemma fold_noteLimit_mono:
  "probLimitRangeMin l \<le> probLimitRangeMin (fold noteLimit cs l) \<and>
   probLimitRangeMinLax l \<le> probLimitRangeMinLax (fold noteLimit cs l) \<and>
   (probLimitRangeCondition l \<longrightarrow> probLimitRangeCondition (fold noteLimit cs l))"
proof (induction cs arbitrary: l)
  case Nil
  show ?case by simp
next
  case (Cons c cs)
  show ?case
    using Cons.IH [of "noteLimit c l"] noteLimit_mono [of l c] by auto
qed

lemma noteLimit_bound:
  "type c = LimitByProbabilityOrder \<Longrightarrow>
   probLimitRangeCondition (noteLimit c l) \<and>
   (minValue c \<le> probLimitRangeMin (noteLimit c l) \<or>
    minValue c \<le> probLimitRangeMinLax (noteLimit c l))"
  by (simp add: noteLimit_def Let_def)

lemma fold_noteLimit_bound:
  "c \<in> set cs \<Longrightarrow> type c = LimitByProbabilityOrder \<Longrightarrow>
   probLimitRangeCondition (fold noteLimit cs l) \<and>
   (minValue c \<le> probLimitRangeMin (fold noteLimit cs l) \<or>
    minValue c \<le> probLimitRangeMinLax (fold noteLimit cs l))"
proof (induction cs arbitrary: l)
  case Nil
  then show ?case by simp
next
  case (Cons a cs)
  show ?case
  proof (cases "c = a")
    case True
    then show ?thesis
      using noteLimit_bound [OF Cons.prems(2), of l] fold_noteLimit_mono [of "noteLimit a l" cs]
      by auto
  next
    case False
    then show ?thesis
      using Cons by auto
  qed
qed

lemma applyPostConditions_beyond:
  assumes "c \<in> set (conditions os)" "type c = LimitByProbabilityOrder"
    and "int (length (filter (\<lambda>w. matchesConditions lx w (conditions os)) ws)) < minValue c"
  shows "applyPostConditions lx os ws = Inr []"
proof -
  let ?l = "probLimits (conditions os)"
  let ?n = "int (length (filter (\<lambda>w. matchesConditions lx w (conditions os)) ws))"
  have a: "probLimitRangeCondition ?l"
    using fold_noteLimit_bound [OF assms(1,2), of initialLimits] by (simp add: probLimits_def)
  have b: "probLimitRangeMin ?l > ?n \<or> probLimitRangeMinLax ?l > ?n"
    using fold_noteLimit_bound [OF assms(1,2), of initialLimits] assms(3)
    by (auto simp: probLimits_def)
  show ?thesis
    unfolding applyPostConditions_def Let_def using a b
    by (simp only: if_True if_False not_True_eq_False)
qed

text \<open>
  C7.  When the optimized specification holds a Limit by Probability Order
  condition whose lower bound exceeds the number of words that are left by the
  word graph and database stages and pass the post conditions, \<open>search\<close>
  returns the empty list: it returns, without an error, and leaves the engine
  as it was.
\<close>

theorem limit_beyond_survivors_is_empty:
  assumes "c \<in> set (conditions (optimize lx spec))"
    and "type c = LimitByProbabilityOrder"
    and "int (length (filter (\<lambda>w. matchesConditions lx w (conditions (optimize lx spec)))
                 (fst (searchStages lx (db eng) (optimize lx spec))))) < minValue c"
  shows "\<exists>out. search lx eng spec allCaps = Inr out \<and> resultList out = [] \<and>
               engineAfter out = eng"
proof -
  obtain stageList queries
    where st: "searchStages lx (db eng) (optimize lx spec) = (stageList, queries)"
    by (cases "searchStages lx (db eng) (optimize lx spec)") auto
  have p: "postConditions (countConditions (conditions (optimize lx spec))) \<noteq> 0"
    by (rule limit_counts_as_post [OF assms(1,2)])
  have a: "applyPostConditions lx (optimize lx spec) stageList = Inr []"
    using applyPostConditions_beyond [OF assms(1,2), of lx stageList] assms(3) st by simp
  show ?thesis
    by (simp add: search_def Let_def st p a)
qed

theorem limit_beyond_survivors_is_empty_witness:
  "(newCondition LimitByProbabilityOrder [] 3 3)\<lparr>boolValue := False\<rparr>
     \<in> set (conditions (optimize careRace (anagramWithLimit 3 3 False))) \<and>
   fst (searchStages careRace (db openEngine) (optimize careRace (anagramWithLimit 3 3 False)))
     = [''CARE'', ''RACE''] \<and>
   (\<exists>out. search careRace openEngine (anagramWithLimit 3 3 False) False = Inr out \<and>
      resultList out = [] \<and> engineAfter out = openEngine)"
proof -
  let ?c = "(newCondition LimitByProbabilityOrder [] 3 3)\<lparr>boolValue := False\<rparr>"
  have h1: "?c \<in> set (conditions (optimize careRace (anagramWithLimit 3 3 False)))"
    by (simp add: fixture_eval)
  have h2: "type ?c = LimitByProbabilityOrder"
    by (simp add: fixture_eval)
  have st: "fst (searchStages careRace (db openEngine)
      (optimize careRace (anagramWithLimit 3 3 False))) = [''CARE'', ''RACE'']"
    by (simp add: string_eval fixture_eval search_eval)
  have h3: "int (length (filter (\<lambda>w. matchesConditions careRace w
        (conditions (optimize careRace (anagramWithLimit 3 3 False))))
      (fst (searchStages careRace (db openEngine)
        (optimize careRace (anagramWithLimit 3 3 False)))))) < minValue ?c"
    unfolding st by (simp add: fixture_eval)
  show ?thesis
    using h1 st limit_beyond_survivors_is_empty [OF h1 h2 h3, of False] by blast
qed

text \<open>
  C10.  When \<open>search\<close> returns an empty list, the engine, and with it the
  cache, is as it was before the call, and every entry of the cache is still
  what \<open>getWordInfo\<close> answers with; when the list is not empty, the cache is
  the cleared cache filled from the result list.
\<close>

theorem empty_result_keeps_cache:
  assumes "search lx eng spec allCaps = Inr out"
  shows "(resultList out = [] \<longrightarrow>
            wordCache (engineAfter out) = wordCache eng \<and>
            (\<forall>w info. w \<noteq> [] \<and> wordCache eng w = Some info \<longrightarrow>
               getWordInfo (engineAfter out) w = (info, engineAfter out))) \<and>
         (resultList out \<noteq> [] \<longrightarrow>
            engineAfter out = addToCache (clearCache eng) (resultList out))"
  using assms
  by (auto simp: search_def getWordInfo_def Let_def split: prod.splits sum.splits if_splits)

theorem empty_result_keeps_cache_witness:
  "search careRace closedEngine (patterns [''ZZ?Z'']) False =
     Inr \<lparr>resultList = [], engineAfter = closedEngine, databaseQueries = []\<rparr> \<and>
   wordCache closedEngine ''CARE'' = Some (infoOfRow (rowOf ''CARE'' 1)) \<and>
   getWordInfo closedEngine ''CARE'' = (infoOfRow (rowOf ''CARE'' 1), closedEngine)"
proof -
  let ?out = "\<lparr>resultList = [], engineAfter = closedEngine, databaseQueries = []\<rparr>"
  have s: "search careRace closedEngine (patterns [''ZZ?Z'']) False = Inr ?out"
    by (simp add: string_eval fixture_eval search_eval)
  have c: "wordCache closedEngine ''CARE'' = Some (infoOfRow (rowOf ''CARE'' 1))"
    by (simp add: closedEngine_def)
  show ?thesis
    using s c empty_result_keeps_cache [OF s] by simp
qed

section \<open>Properties of databaseSearch\<close>

lemma sameSelection_Cons:
  "sameSelection ps qs \<Longrightarrow> sameSelection (p # ps) (p # qs)"
  by (simp add: sameSelection_def)

lemma conjuncts_tail:
  "rel_option sameSelection
     (conjuncts (Predicate (Compare col Equal k) # post))
     (conjuncts (Predicate (Compare col AtLeast k) # AND
                  # Predicate (Compare col AtMost k) # post))"
proof (cases post)
  case Nil
  then show ?thesis by (auto simp: sameSelection_def)
next
  case (Cons t ts)
  show ?thesis
  proof (cases t)
    case AND
    then show ?thesis
      using Cons by (cases "conjuncts ts") (auto simp: sameSelection_def)
  next
    case (Predicate q)
    then show ?thesis using Cons by simp
  qed
qed

lemma conjuncts_context:
  "rel_option sameSelection
     (conjuncts (pre @ Predicate (Compare col Equal k) # post))
     (conjuncts (pre @ Predicate (Compare col AtLeast k) # AND
                  # Predicate (Compare col AtMost k) # post))"
proof (induction pre rule: conjuncts.induct)
  case (1 p)
  then show ?case by simp
next
  case (2 p ts)
  then show ?case
    by (auto simp: option.rel_map intro: option.rel_mono_strong sameSelection_Cons)
next
  case "3_1"
  show ?case using conjuncts_tail [of col k post] by simp
qed simp_all

lemma selectRows_context:
  "selectRows d (pre @ Predicate (Compare col Equal k) # post) =
   selectRows d (pre @ Predicate (Compare col AtLeast k) # AND
                   # Predicate (Compare col AtMost k) # post)"
  using conjuncts_context [of pre col k post]
  by (auto simp: selectRows_def sameSelection_def elim!: option.rel_cases)

lemma conditionsPieces_append:
  "conditionsPieces found (xs @ ys) =
   conditionsPieces found xs @
   conditionsPieces (found \<or> list_ex (\<lambda>b. isDatabaseType (type b)) xs) ys"
  by (induction xs arbitrary: found) simp_all

lemma collapsed_pieces:
  assumes "isRangeCondition c" and "minValue c = k" and "maxValue c = k"
  shows "conditionPieces c = [Predicate (Compare (columnOf (type c)) Equal k)]"
  using assms by (auto simp: isRangeCondition_def conditionPieces_def rangePieces_def)

lemma range_is_database_type:
  "isRangeCondition c \<Longrightarrow> isDatabaseType (type c)"
  by (auto simp: isRangeCondition_def isDatabaseType_def)

lemma queryStr_around:
  assumes "isDatabaseType (type c)" and "conditions os = before @ c # after"
  shows "queryStr os wl = piecesBefore before @ conditionPieces c @ piecesAfter after wl"
  using assms
  by (simp add: queryStr_def piecesBefore_def piecesAfter_def conditionsPieces_append)

text \<open>
  C8.  A numeric-range condition with both bounds equal to \<open>k\<close> contributes
  \<open>column = k\<close> to the query text of \<open>databaseSearch\<close>, wherever it stands among
  the conditions, and \<open>databaseSearch\<close> returns on every database the words
  that the same text with the range \<open>column >= k AND column <= k\<close> in its
  place selects (each given back as the word list spells it).  When it is the
  only condition and there is no word list, these are the words of the rows
  whose column is \<open>k\<close>, in the order of the relation.
\<close>

theorem collapsed_range_is_equality:
  assumes "isRangeCondition c" and "minValue c = k" and "maxValue c = k"
    and "conditions os = before @ c # after"
  shows "queryStr os wl =
           piecesBefore before @ [Predicate (Compare (columnOf (type c)) Equal k)]
             @ piecesAfter after wl \<and>
         databaseSearch d os wl =
           map (\<lambda>w. case upperToLower wl w of Some original \<Rightarrow> original | None \<Rightarrow> w)
             (selectWords d
               (piecesBefore before @
                [Predicate (Compare (columnOf (type c)) AtLeast k), AND,
                 Predicate (Compare (columnOf (type c)) AtMost k)] @
                piecesAfter after wl)) \<and>
         databaseSearch d (os\<lparr>conditions := [c]\<rparr>) None =
           (if isOpen d
            then map word (filter (\<lambda>r. columnValue (columnOf (type c)) r = k) (rows d))
            else [])"
proof -
  have p: "conditionPieces c = [Predicate (Compare (columnOf (type c)) Equal k)]"
    using assms(1-3) by (rule collapsed_pieces)
  have t: "isDatabaseType (type c)"
    using assms(1) by (rule range_is_database_type)
  have q: "queryStr os wl =
           piecesBefore before @ [Predicate (Compare (columnOf (type c)) Equal k)]
             @ piecesAfter after wl"
    using queryStr_around [OF t assms(4), of wl] by (simp only: p)
  have s: "databaseSearch d os wl =
           map (\<lambda>w. case upperToLower wl w of Some original \<Rightarrow> original | None \<Rightarrow> w)
             (selectWords d
               (piecesBefore before @
                [Predicate (Compare (columnOf (type c)) AtLeast k), AND,
                 Predicate (Compare (columnOf (type c)) AtMost k)] @
                piecesAfter after wl))"
    unfolding databaseSearch_def q selectWords_def
    using selectRows_context [of d "piecesBefore before" "columnOf (type c)" k
        "piecesAfter after wl"]
    by simp
  have o: "databaseSearch d (os\<lparr>conditions := [c]\<rparr>) None =
           (if isOpen d
            then map word (filter (\<lambda>r. columnValue (columnOf (type c)) r = k) (rows d))
            else [])"
    using t by (simp add: databaseSearch_def queryStr_def p selectWords_def selectRows_def
        upperToLower_def)
  from q s o show ?thesis by blast
qed

theorem collapsed_range_is_equality_witness:
  "isRangeCondition (newCondition Length [] 4 4) \<and>
   queryStr (specOf [newCondition IncludeLetters ''C'' 0 0, newCondition Length [] 4 4])
       (Some [''care'', ''cares'', ''race'', ''team'']) =
     [Predicate (WordLike False (CHR ''C'')), AND, Predicate (Compare length_column Equal 4),
      AND, Predicate (WordIn False [''CARE'', ''CARES'', ''RACE'', ''TEAM''])] \<and>
   databaseSearch mixedLengths
       (specOf [newCondition IncludeLetters ''C'' 0 0, newCondition Length [] 4 4])
       (Some [''care'', ''cares'', ''race'', ''team'']) = [''care'', ''race''] \<and>
   selectWords mixedLengths
     [Predicate (WordLike False (CHR ''C'')), AND,
      Predicate (Compare length_column AtLeast 4), AND,
      Predicate (Compare length_column AtMost 4),
      AND, Predicate (WordIn False [''CARE'', ''CARES'', ''RACE'', ''TEAM''])]
     = [''CARE'', ''RACE''] \<and>
   databaseSearch mixedLengths (specOf [newCondition Length [] 4 4]) None =
     [''CARE'', ''RACE'', ''TEAM'']"
proof -
  let ?c = "newCondition Length [] 4 4"
  let ?os = "specOf [newCondition IncludeLetters ''C'' 0 0, ?c]"
  let ?wl = "Some [''care'', ''cares'', ''race'', ''team'']"
  have h: "isRangeCondition ?c"
    by (simp add: isRangeCondition_def newCondition_def)
  have m: "minValue ?c = 4" "maxValue ?c = 4"
    by (simp_all add: newCondition_def)
  have o: "conditions ?os = [newCondition IncludeLetters ''C'' 0 0] @ ?c # []"
    by (simp add: specOf_def)
  have r: "selectWords mixedLengths
     [Predicate (WordLike False (CHR ''C'')), AND,
      Predicate (Compare length_column AtLeast 4), AND,
      Predicate (Compare length_column AtMost 4),
      AND, Predicate (WordIn False [''CARE'', ''CARES'', ''RACE'', ''TEAM''])]
     = [''CARE'', ''RACE'']"
    by (simp add: selectWords_def selectRows_def mixedLengths_def rowOf_def string_eval)
  have u: "(case upperToLower ?wl ''CARE'' of Some original \<Rightarrow> original | None \<Rightarrow> ''CARE'')
       = ''care''"
    "(case upperToLower ?wl ''RACE'' of Some original \<Rightarrow> original | None \<Rightarrow> ''RACE'')
       = ''race''"
    by (simp_all add: upperToLower_def string_eval)
  have b: "piecesBefore [newCondition IncludeLetters ''C'' 0 0] =
     [Predicate (WordLike False (CHR ''C'')), AND]"
    by (simp add: piecesBefore_def newCondition_def isDatabaseType_def conditionPieces_def)
  have a: "piecesAfter [] ?wl =
     [AND, Predicate (WordIn False [''CARE'', ''CARES'', ''RACE'', ''TEAM''])]"
    by (simp add: piecesAfter_def string_eval)
  have s: "?os\<lparr>conditions := [?c]\<rparr> = specOf [?c]"
    by (simp add: specOf_def)
  have col: "columnOf (type ?c) = length_column"
    by (simp add: newCondition_def)
  note t = collapsed_range_is_equality [OF h m o, of ?wl mixedLengths]
  have q: "queryStr ?os ?wl =
     [Predicate (WordLike False (CHR ''C'')), AND, Predicate (Compare length_column Equal 4),
      AND, Predicate (WordIn False [''CARE'', ''CARES'', ''RACE'', ''TEAM''])]"
    using t by (simp add: b a col)
  have d1: "databaseSearch mixedLengths ?os ?wl = [''care'', ''race'']"
    using t by (simp add: b a col r u)
  have d2: "databaseSearch mixedLengths (specOf [?c]) None = [''CARE'', ''RACE'', ''TEAM'']"
    using t by (simp add: s col) (simp add: mixedLengths_def rowOf_def)
  from h q d1 r d2 show ?thesis by blast
qed

section \<open>The database stage\<close>



lemma addToCache_queries:
  "addToCache eng ws =
     eng\<lparr>wordCache :=
           fold (\<lambda>r cache. cache(word r \<mapsto> infoOfRow r))
             (concat (map (selectRows (db eng)) (cacheQueries eng ws))) (wordCache eng)\<rparr>"
  by (simp add: addToCache_def cacheQueries_def)

lemma careRace_optimize_idempotent:
  "optimize careRace (optimize careRace s) = optimize careRace s"
  by (simp add: careRace_def lengthOfPattern_def newCondition_def)

text \<open>
  The discount is of one condition: an optimized specification with a pattern
  and two Length conditions goes to the database.
\<close>

lemma two_length_conditions_reach_database:
  "searchStages careRace (db openEngine)
     (specOf [newCondition PatternMatch ''CA?E'' 0 0, newCondition Length [] 4 4,
              newCondition Length [] 4 4]) =
     ([''CARE''],
      [[Predicate (Compare length_column Equal 4), AND,
        Predicate (Compare length_column Equal 4), AND,
        Predicate (WordIn False [''CARE''])]])"
  by (simp add: string_eval fixture_eval search_eval)




lemma closed_database:
  "\<not> isOpen d \<Longrightarrow> databaseSearch d os wl = []"
  by (simp add: databaseSearch_def selectWords_def selectRows_def)

text \<open>
  C2, as the code has it.  When the database is not open and a database
  condition is left after the discount of a single Length condition,
  \<open>search\<close> returns the empty list, whatever the word graph has found, and
  leaves the engine as it was.
\<close>

theorem closed_database_gives_empty_result:
  assumes "\<not> isOpen (db eng)"
    and "databaseConditionsLeft (countConditions (conditions (optimize lx spec))) \<noteq> 0"
  shows "\<exists>queries. search lx eng spec allCaps =
           Inr \<lparr>resultList = [], engineAfter = eng, databaseQueries = queries\<rparr>"
proof -
  have "fst (searchStages lx (db eng) (optimize lx spec)) = []"
    using assms by (simp add: searchStages_def Let_def closed_database)
  then obtain q where "searchStages lx (db eng) (optimize lx spec) = ([], q)"
    by (cases "searchStages lx (db eng) (optimize lx spec)") auto
  then show ?thesis
    by (simp add: search_def Let_def)
qed

theorem closed_database_gives_empty_result_witness:
  "\<not> isOpen (db closedEngine) \<and>
   databaseConditionsLeft (countConditions (conditions (optimize careRace patternWithVowels)))
     = 2 \<and>
   (\<exists>queries. search careRace closedEngine patternWithVowels True =
      Inr \<lparr>resultList = [], engineAfter = closedEngine, databaseQueries = queries\<rparr>)"
proof -
  have h1: "\<not> isOpen (db closedEngine)"
    by (simp add: closedEngine_def)
  have n: "databaseConditionsLeft
      (countConditions (conditions (optimize careRace patternWithVowels))) = 2"
    by (simp add: fixture_eval search_eval)
  then have h2: "databaseConditionsLeft
      (countConditions (conditions (optimize careRace patternWithVowels))) \<noteq> 0"
    by simp
  show ?thesis
    using h1 n closed_database_gives_empty_result [OF h1 h2, of True] by simp
qed

text \<open>
  C2, as it is stated, fails: with the database never opened, a pattern that
  the word graph answers with CARE and a Number of Vowels condition give the
  empty list, not the word graph's list.
\<close>

theorem closed_database_loses_graph_result:
  "\<not> isOpen (db closedEngine) \<and>
   map type (conditions (optimize careRace patternWithVowels))
     = [PatternMatch, NumVowels, Length] \<and>
   graphSearch careRace (optimize careRace patternWithVowels) = [''CARE''] \<and>
   search careRace closedEngine patternWithVowels False =
     Inr \<lparr>resultList = [], engineAfter = closedEngine,
          databaseQueries =
            [[Predicate (Compare num_vowels Equal 2), AND,
              Predicate (Compare length_column Equal 4), AND,
              Predicate (WordIn False [''CARE''])]]\<rparr>"
  by (simp add: string_eval fixture_eval search_eval)

section \<open>Properties of importStems\<close>

lemma spaceSeparated_tokens:
  "\<forall>c \<in> set cur. \<not> isSpace c \<Longrightarrow> t \<in> set (spaceSeparated cur s) \<Longrightarrow>
   t \<noteq> [] \<and> (\<forall>c \<in> set t. \<not> isSpace c)"
proof (induction s arbitrary: cur)
  case Nil
  then show ?case by (auto split: if_splits)
next
  case (Cons c cs)
  show ?case
  proof (cases "isSpace c")
    case True
    show ?thesis
    proof (cases "cur = []")
      case e: True
      then have "t \<in> set (spaceSeparated [] cs)"
        using Cons.prems(2) True by simp
      then show ?thesis
        using Cons.IH [of "[]"] by simp
    next
      case ne: False
      then have "t = cur \<or> t \<in> set (spaceSeparated [] cs)"
        using Cons.prems(2) True by simp
      then show ?thesis
        using Cons.IH [of "[]"] Cons.prems(1) ne by auto
    qed
  next
    case False
    then have "t \<in> set (spaceSeparated (cur @ [c]) cs)"
      using Cons.prems(2) by simp
    moreover have "\<forall>x \<in> set (cur @ [c]). \<not> isSpace x"
      using Cons.prems(1) False by simp
    ultimately show ?thesis
      using Cons.IH [of "cur @ [c]"] by blast
  qed
qed

lemma joinWithSpace_head:
  "t \<noteq> [] \<Longrightarrow> CHR '' '' \<notin> set t \<Longrightarrow>
   joinWithSpace (t # ts) \<noteq> [] \<and> hd (joinWithSpace (t # ts)) = hd t \<and>
   firstSection (joinWithSpace (t # ts)) = t"
  by (cases ts) (auto simp: firstSection_def takeWhile_append)

lemma simplified_line:
  "simplified s = [] \<longleftrightarrow> spaceSeparated [] s = []"
  "spaceSeparated [] s \<noteq> [] \<Longrightarrow>
     hd (simplified s) = hd (hd (spaceSeparated [] s)) \<and>
     firstSection (simplified s) = hd (spaceSeparated [] s) \<and>
     hd (spaceSeparated [] s) \<noteq> []"
proof -
  have tok: "\<And>t. t \<in> set (spaceSeparated [] s) \<Longrightarrow> t \<noteq> [] \<and> CHR '' '' \<notin> set t"
    using spaceSeparated_tokens [of "[]" _ s] by (auto simp: isSpace_def)
  show "simplified s = [] \<longleftrightarrow> spaceSeparated [] s = []"
  proof (cases "spaceSeparated [] s")
    case Nil
    then show ?thesis by (simp add: simplified_def)
  next
    case (Cons t ts)
    then show ?thesis
      using tok [of t] joinWithSpace_head [of t ts] by (simp add: simplified_def)
  qed
  show "spaceSeparated [] s \<noteq> [] \<Longrightarrow>
     hd (simplified s) = hd (hd (spaceSeparated [] s)) \<and>
     firstSection (simplified s) = hd (spaceSeparated [] s) \<and>
     hd (spaceSeparated [] s) \<noteq> []"
  proof (cases "spaceSeparated [] s")
    case Nil
    then show "spaceSeparated [] s \<noteq> [] \<Longrightarrow> ?thesis" by simp
  next
    case (Cons t ts)
    then show ?thesis
      using tok [of t] joinWithSpace_head [of t ts] by (simp add: simplified_def)
  qed
qed

lemma entries_Cons:
  "entries (b # bs) = (if isEntry b then hd (spaceSeparated [] b) # entries bs else entries bs)"
  by (simp add: entries_def isEntry_def)

lemma scanLine_skip:
  "\<not> isEntry b \<Longrightarrow> scanLine b st = st"
  using simplified_line [of b] by (auto simp: scanLine_def isEntry_def Let_def)

lemma scanLine_entry:
  assumes "isEntry b"
  shows "hd (spaceSeparated [] b) \<noteq> []"
    and "scanLine b st =
     (let w = hd (spaceSeparated [] b);
          st1 = (if stemLength st = 0 then st\<lparr>stemLength := int (length w)\<rparr> else st)
      in if stemLength st1 \<noteq> int (length w) then st1
         else st1\<lparr>scanWords := scanWords st1 @ [w],
                  scanAlphagrams := insert (getAlphagram w) (scanAlphagrams st1),
                  imported := imported st1 + 1\<rparr>)"
  using assms simplified_line [of b] by (auto simp: scanLine_def isEntry_def Let_def)

lemma fold_scanLine:
  "fold scanLine buffers st =
     (let len = (if stemLength st \<noteq> 0 then stemLength st else fileLength buffers)
      in scanned st len (filter (\<lambda>w. int (length w) = len) (entries buffers)))"
proof (induction buffers arbitrary: st)
  case Nil
  show ?case
    by (simp add: entries_def fileLength_def scanned_def)
next
  case (Cons b bs)
  show ?case
  proof (cases "isEntry b")
    case False
    then show ?thesis
      using Cons.IH [of st] by (simp add: scanLine_skip entries_Cons fileLength_def)
  next
    case True
    let ?w = "hd (spaceSeparated [] b)"
    have w: "?w \<noteq> []" by (rule scanLine_entry(1) [OF True])
    show ?thesis
    proof (cases "stemLength st = 0")
      case z: True
      have s: "scanLine b st = (st\<lparr>stemLength := int (length ?w)\<rparr>)\<lparr>scanWords := scanWords st @ [?w],
                  scanAlphagrams := insert (getAlphagram ?w) (scanAlphagrams st),
                  imported := imported st + 1\<rparr>"
        using z by (simp add: scanLine_entry(2) [OF True] Let_def)
      show ?thesis
        using w z True unfolding fold_simps Cons.IH s
        by (simp add: entries_Cons fileLength_def scanned_def Let_def)
    next
      case nz: False
      show ?thesis
        using w nz True unfolding fold_simps Cons.IH
        by (auto simp: scanLine_entry(2) [OF True] entries_Cons fileLength_def scanned_def Let_def)
    qed
  qed
qed

lemma scan_result:
  "fold scanLine buffers scanStart =
     \<lparr>scanWords = accepted buffers, scanAlphagrams = getAlphagram ` set (accepted buffers),
      imported = int (length (accepted buffers)), stemLength = fileLength buffers\<rparr>"
  by (cases "entries buffers")
     (auto simp: fold_scanLine scanStart_def scanned_def accepted_def fileLength_def Let_def)

lemma importStems_once:
  assumes "dom (stems eng) = dom (stemAlphagrams eng)"
  shows "importStems eng (Some buffers) =
     Inr (int (length (accepted buffers)),
          eng\<lparr>stems := (stems eng)(fileLength buffers \<mapsto>
                  (case stems eng (fileLength buffers) of None \<Rightarrow> [] | Some ws \<Rightarrow> ws)
                    @ accepted buffers),
              stemAlphagrams := (stemAlphagrams eng)(fileLength buffers \<mapsto>
                  (case stemAlphagrams eng (fileLength buffers) of None \<Rightarrow> {} | Some a \<Rightarrow> a)
                    \<union> getAlphagram ` set (accepted buffers))\<rparr>)"
proof (cases "stems eng (fileLength buffers)")
  case None
  then have "stemAlphagrams eng (fileLength buffers) = None"
    using assms by (metis domIff)
  with None show ?thesis
    by (simp add: importStems_def scan_result Let_def)
next
  case (Some ws)
  then obtain a where "stemAlphagrams eng (fileLength buffers) = Some a"
    using assms by (metis domIff not_None_eq)
  with Some show ?thesis
    by (simp add: importStems_def scan_result Let_def)
qed

text \<open>
  C9.  \<open>importStems\<close> takes from a file the first white-space-delimited
  tokens of its lines (empty lines and comments apart) that are as long as the
  first of them, drops the others without a word, and returns the number it
  took; a second call on a file of the same length leaves, for that length,
  the stems of the first call followed by those of the second, and the union
  of their alphagrams, after whatever was there before.
\<close>

theorem importStems_discards_counts_and_merges:
  assumes "dom (stems eng) = dom (stemAlphagrams eng)"
    and "fileLength second = fileLength first"
    and "present = (case stems eng (fileLength first) of None \<Rightarrow> [] | Some ws \<Rightarrow> ws)"
    and "presentAlphagrams =
           (case stemAlphagrams eng (fileLength first) of None \<Rightarrow> {} | Some a \<Rightarrow> a)"
  shows "\<exists>eng1 eng2.
           importStems eng (Some first) = Inr (int (length (accepted first)), eng1) \<and>
           stems eng1 (fileLength first) = Some (present @ accepted first) \<and>
           stemAlphagrams eng1 (fileLength first) =
             Some (presentAlphagrams \<union> getAlphagram ` set (accepted first)) \<and>
           importStems eng1 (Some second) = Inr (int (length (accepted second)), eng2) \<and>
           stems eng2 (fileLength first) = Some (present @ accepted first @ accepted second) \<and>
           stemAlphagrams eng2 (fileLength first) =
             Some (presentAlphagrams \<union> getAlphagram ` set (accepted first)
                     \<union> getAlphagram ` set (accepted second))"
proof -
  let ?eng1 = "eng\<lparr>stems := (stems eng)(fileLength first \<mapsto> present @ accepted first),
              stemAlphagrams := (stemAlphagrams eng)(fileLength first \<mapsto>
                  presentAlphagrams \<union> getAlphagram ` set (accepted first))\<rparr>"
  have one: "importStems eng (Some first) = Inr (int (length (accepted first)), ?eng1)"
    using importStems_once [OF assms(1), of first] assms(3,4) by simp
  have inv: "dom (stems ?eng1) = dom (stemAlphagrams ?eng1)"
    using assms(1) by simp
  show ?thesis
    using one importStems_once [OF inv, of second] assms(2) by simp
qed

theorem importStems_discards_counts_and_merges_witness:
  "dom (stems openEngine) = dom (stemAlphagrams openEngine) \<and>
   fileLength stemFile6b = fileLength stemFile6a \<and>
   entries stemFile6a = [''AEINST'', ''SATIRE'', ''RETINAS''] \<and>
   entries stemFile6b = [''SENIOR'', ''TOO''] \<and>
   (\<exists>eng1 eng2.
      importStems openEngine (Some stemFile6a) = Inr (2, eng1) \<and>
      stems eng1 6 = Some [''AEINST'', ''SATIRE''] \<and>
      importStems eng1 (Some stemFile6b) = Inr (1, eng2) \<and>
      stems eng2 6 = Some [''AEINST'', ''SATIRE'', ''SENIOR''] \<and>
      stemAlphagrams eng2 6 = Some {''AEINST'', ''AEIRST'', ''EINORS''})"
proof -
  have h1: "dom (stems openEngine) = dom (stemAlphagrams openEngine)"
    by (simp add: openEngine_def)
  have ea: "entries stemFile6a = [''AEINST'', ''SATIRE'', ''RETINAS'']"
    by (simp add: entries_def stemFile6a_def isSpace_def)
  have eb: "entries stemFile6b = [''SENIOR'', ''TOO'']"
    by (simp add: entries_def stemFile6b_def isSpace_def)
  have la: "fileLength stemFile6a = 6" and lb: "fileLength stemFile6b = 6"
    by (simp_all add: fileLength_def ea eb)
  have h2: "fileLength stemFile6b = fileLength stemFile6a"
    by (simp add: la lb)
  have aa: "accepted stemFile6a = [''AEINST'', ''SATIRE'']"
    and ab: "accepted stemFile6b = [''SENIOR'']"
    by (simp_all add: accepted_def ea eb)
  have p: "[] = (case stems openEngine (fileLength stemFile6a) of None \<Rightarrow> [] | Some ws \<Rightarrow> ws)"
    and q: "{} = (case stemAlphagrams openEngine (fileLength stemFile6a) of
                    None \<Rightarrow> {} | Some a \<Rightarrow> a)"
    by (simp_all add: openEngine_def)
  have "\<exists>eng1 eng2.
      importStems openEngine (Some stemFile6a) = Inr (2, eng1) \<and>
      stems eng1 6 = Some [''AEINST'', ''SATIRE''] \<and>
      importStems eng1 (Some stemFile6b) = Inr (1, eng2) \<and>
      stems eng2 6 = Some [''AEINST'', ''SATIRE'', ''SENIOR''] \<and>
      stemAlphagrams eng2 6 = Some {''AEINST'', ''AEIRST'', ''EINORS''}"
    using importStems_discards_counts_and_merges [OF h1 h2 p q]
    by (simp add: la aa ab getAlphagram_def insert_commute) blast
  with h1 h2 ea eb show ?thesis by blast
qed

section \<open>Properties of the ranking\<close>

lemma less_append_same_length:
  fixes x y :: "'a::linorder list"
  shows "length x = length y \<Longrightarrow> (x @ u < y @ v \<longleftrightarrow> x < y \<or> (x = y \<and> u < v))"
  by (induction x y rule: list_induct2) auto

lemma less_same_length_append:
  fixes x y :: "'a::linorder list"
  shows "length x = length y \<Longrightarrow> x < y \<Longrightarrow> x @ u < y @ v"
  by (simp add: less_append_same_length)

lemma take_mono_le:
  fixes xs ys :: "'a::linorder list"
  shows "xs \<le> ys \<Longrightarrow> take n xs \<le> take n ys"
proof (induction n arbitrary: xs ys)
  case 0
  show ?case by simp
next
  case (Suc n)
  show ?case
  proof (cases xs)
    case Nil
    then show ?thesis by simp
  next
    case xs: (Cons a as)
    show ?thesis
    proof (cases ys)
      case Nil
      then show ?thesis using Suc.prems xs by simp
    next
      case ys: (Cons b bs)
      show ?thesis
        using Suc.prems Suc.IH [of as bs] unfolding xs ys by auto
    qed
  qed
qed

lemma digit_code: "i < 10 \<Longrightarrow> of_char (digitChars ! i) = (48 + i :: nat)"
proof -
  assume "i < 10"
  then have "i \<in> {0, 1, 2, 3, 4, 5, 6, 7, 8, 9}"
    by auto
  then show ?thesis
    by (auto simp: digitChars_def)
qed

lemma digit_less: "i < j \<Longrightarrow> j < 10 \<Longrightarrow> digitChars ! i < digitChars ! j"
  using digit_code [of i] digit_code [of j] by (simp add: less_char_def)

lemma length_fixedDigits [simp]: "length (fixedDigits k n) = k"
  by (induction k arbitrary: n) auto

lemma fixedDigits_zero: "fixedDigits k 0 = replicate k (CHR ''0'')"
proof (induction k)
  case 0
  show ?case by simp
next
  case (Suc k)
  have "digitChars ! 0 = CHR ''0''" by (simp add: digitChars_def)
  then show ?case using Suc by (simp add: replicate_append_same)
qed

lemma zeroFill_decimal: "n < 10 ^ Suc k \<Longrightarrow> zeroFill (Suc k) (decimal n) = fixedDigits (Suc k) n"
proof (induction k arbitrary: n)
  case 0
  then show ?case by (simp add: decimal.simps [of n] zeroFill_def)
next
  case (Suc k)
  show ?case
  proof (cases "n < 10")
    case True
    then show ?thesis
      by (simp add: decimal.simps [of n] zeroFill_def fixedDigits_zero replicate_append_same)
  next
    case False
    have d: "n div 10 < 10 ^ Suc k"
      using Suc.prems by (simp add: less_mult_imp_div_less mult.commute)
    have l: "length (decimal (n div 10)) \<le> Suc k"
      using Suc.IH [OF d] length_fixedDigits [of "Suc k" "n div 10"]
      by (metis zeroFill_def length_append le_add2)
    have "zeroFill (Suc (Suc k)) (decimal n) =
        zeroFill (Suc k) (decimal (n div 10)) @ [digitChars ! (n mod 10)]"
      using False l by (simp add: decimal.simps [of n] zeroFill_def Suc_diff_le)
    then show ?thesis
      using Suc.IH [OF d] by simp
  qed
qed

lemma fixedDigits_mono:
  "a < b \<Longrightarrow> b < 10 ^ k \<Longrightarrow> fixedDigits k a < fixedDigits k b"
proof (induction k arbitrary: a b)
  case 0
  then show ?case by simp
next
  case (Suc k)
  have le: "a div 10 \<le> b div 10"
    using Suc.prems(1) by (simp add: div_le_mono)
  show ?case
  proof (cases "a div 10 = b div 10")
    case True
    then have "a mod 10 < b mod 10"
      using Suc.prems(1) by (metis div_mult_mod_eq nat_add_left_cancel_less)
    then have "digitChars ! (a mod 10) < digitChars ! (b mod 10)"
      by (simp add: digit_less)
    then show ?thesis
      using True by (simp add: less_append_same_length)
  next
    case False
    then have "a div 10 < b div 10" using le by simp
    moreover have "b div 10 < 10 ^ k"
      using Suc.prems(2) by (simp add: less_mult_imp_div_less mult.commute)
    ultimately have "fixedDigits k (a div 10) < fixedDigits k (b div 10)"
      by (rule Suc.IH)
    then show ?thesis
      by (simp add: less_append_same_length)
  qed
qed

lemma fixedDigits_less_iff:
  "a < 10 ^ k \<Longrightarrow> b < 10 ^ k \<Longrightarrow> fixedDigits k a < fixedDigits k b \<longleftrightarrow> a < b"
  by (metis fixedDigits_mono less_asym' linorder_neqE_nat order_less_irrefl)

lemma fixedDigits_inj:
  "a < 10 ^ k \<Longrightarrow> b < 10 ^ k \<Longrightarrow> fixedDigits k a = fixedDigits k b \<longleftrightarrow> a = b"
  by (metis fixedDigits_mono linorder_neqE_nat order_less_irrefl)

lemma sprintf09_count:
  "n \<le> 999999999 \<Longrightarrow> sprintf09 (999999999 - int n) = fixedDigits 9 (999999999 - n)"
proof -
  assume n: "n \<le> 999999999"
  have "(999999999 - n) < 10 ^ Suc 8" by simp
  then have "zeroFill (Suc 8) (decimal (999999999 - n)) = fixedDigits (Suc 8) (999999999 - n)"
    by (rule zeroFill_decimal)
  moreover have "nat (999999999 - int n) = 999999999 - n"
    using n by simp
  ultimately show ?thesis
    using n by (simp add: sprintf09_def)
qed

lemma qmapInsert_keys:
  "fst ` set (qmapInsert k v m) = insert k (fst ` set m)"
proof (induction m)
  case Nil
  show ?case by simp
next
  case (Cons e m)
  obtain k' v' where e: "e = (k', v')" by (cases e)
  consider "k < k'" | "k = k'" | "\<not> k < k'" "k \<noteq> k'" by blast
  then show ?case
  proof cases
    case 1
    then show ?thesis by (simp add: e)
  next
    case 2
    then show ?thesis by (simp add: e)
  next
    case 3
    then show ?thesis using Cons.IH by (simp add: e insert_commute)
  qed
qed

lemma qmapInsert_sorted:
  "sorted_wrt (<) (map fst m) \<Longrightarrow> sorted_wrt (<) (map fst (qmapInsert k v m))"
proof (induction m)
  case Nil
  show ?case by simp
next
  case (Cons e m)
  obtain k' v' where e: "e = (k', v')" by (cases e)
  show ?case
  proof (cases "k < k'")
    case True
    then show ?thesis using Cons.prems e by auto
  next
    case False
    show ?thesis
    proof (cases "k = k'")
      case True
      then show ?thesis using Cons.prems e by simp
    next
      case ne: False
      then have "k' < k" using False by simp
      then show ?thesis
        using Cons e False ne qmapInsert_keys [of k v m] by (auto simp: image_iff)
    qed
  qed
qed

lemma qmapInsert_entry:
  "e \<in> set (qmapInsert k v m) \<Longrightarrow> e = (k, v) \<or> e \<in> set m"
  by (induction m) (auto split: if_splits)

lemma fold_qmapInsert_sorted:
  "sorted_wrt (<) (map fst m) \<Longrightarrow>
   sorted_wrt (<) (map fst (fold (\<lambda>w m. qmapInsert (f w) w m) ws m))"
  by (induction ws arbitrary: m) (auto intro: qmapInsert_sorted)

lemma fold_qmapInsert_entry:
  "e \<in> set (fold (\<lambda>w m. qmapInsert (f w) w m) ws m) \<Longrightarrow>
   (fst e = f (snd e) \<and> snd e \<in> set ws) \<or> e \<in> set m"
proof (induction ws arbitrary: m)
  case Nil
  then show ?case by simp
next
  case (Cons w ws)
  from Cons.IH [of "qmapInsert (f w) w m"] Cons.prems
  have "(fst e = f (snd e) \<and> snd e \<in> set ws) \<or> e \<in> set (qmapInsert (f w) w m)"
    by simp
  then show ?case
    using qmapInsert_entry [of e "f w" w m] by auto
qed

lemma probMap_sorted: "sorted_wrt (<) (map fst (probMap lx lg ws))"
  unfolding probMap_def by (rule fold_qmapInsert_sorted) simp

lemma probMap_entry:
  "e \<in> set (probMap lx lg ws) \<Longrightarrow> fst e = radix lx lg (snd e) \<and> snd e \<in> set ws"
  unfolding probMap_def using fold_qmapInsert_entry [of e "radix lx lg" ws "[]"] by simp

lemma probMap_values_sorted:
  "sorted_wrt (\<lambda>a b. radix lx lg a < radix lx lg b) (map snd (probMap lx lg ws))"
proof -
  have eq: "map fst (probMap lx lg ws) = map (radix lx lg \<circ> snd) (probMap lx lg ws)"
    by (rule map_cong [OF refl]) (simp add: probMap_entry)
  have "sorted_wrt (<) (map fst (probMap lx lg ws))"
    by (rule probMap_sorted)
  then have "sorted_wrt (<) (map (radix lx lg \<circ> snd) (probMap lx lg ws))"
    by (simp only: eq)
  then show ?thesis
    by (simp add: sorted_wrt_map)
qed

lemma sorted_wrt_mid: "sorted_wrt R xs \<Longrightarrow> sorted_wrt R (mid xs pos len)"
proof -
  assume s: "sorted_wrt R xs"
  have d: "sorted_wrt R (drop n xs)" for n
    using s by (metis append_take_drop_id sorted_wrt_append)
  have "sorted_wrt R (take m (drop n xs))" for m n
    using d [of n] by (metis append_take_drop_id sorted_wrt_append)
  with d show ?thesis
    by (simp add: mid_def)
qed

lemma set_mid: "set (mid xs pos len) \<subseteq> set xs"
  by (auto simp: mid_def dest: in_set_takeD in_set_dropD)

lemma radix_less_iff:
  assumes "getNumCombinations lx (toUpper a) \<le> 999999999"
    and "getNumCombinations lx (toUpper b) \<le> 999999999"
  shows "radix lx lg a < radix lx lg b \<longleftrightarrow> rankedBefore lx lg a b"
proof -
  let ?na = "getNumCombinations lx (toUpper a)" and ?nb = "getNumCombinations lx (toUpper b)"
  have lt: "fixedDigits 9 (999999999 - ?na) < fixedDigits 9 (999999999 - ?nb) \<longleftrightarrow> ?nb < ?na"
    using assms by (subst fixedDigits_less_iff) auto
  have eq: "fixedDigits 9 (999999999 - ?na) = fixedDigits 9 (999999999 - ?nb) \<longleftrightarrow> ?na = ?nb"
    using assms by (subst fixedDigits_inj) auto
  show ?thesis
    unfolding radix_def sprintf09_count [OF assms(1)] sprintf09_count [OF assms(2)]
    by (simp add: less_append_same_length lt eq rankedBefore_def) 
qed

lemma rankedBefore_same_length:
  "length a = length b \<Longrightarrow> rankedBefore lx lg a b \<longleftrightarrow> rankedBeforeAsStated lx lg a b"
  by (simp add: rankedBefore_def rankedBeforeAsStated_def less_append_same_length
      getAlphagram_def toUpper_def)

lemma noteLimit_legacy:
  "legacyProbCondition (noteLimit c l) \<longleftrightarrow>
   legacyProbCondition l \<or> (type c = LimitByProbabilityOrder \<and> legacy c)"
  by (simp add: noteLimit_def Let_def)

lemma fold_noteLimit_legacy:
  "legacyProbCondition (fold noteLimit cs l) \<longleftrightarrow>
   legacyProbCondition l \<or> (\<exists>c \<in> set cs. type c = LimitByProbabilityOrder \<and> legacy c)"
  by (induction cs arbitrary: l) (auto simp: noteLimit_legacy)

lemma probLimits_legacy:
  "legacyProbCondition (probLimits cs) \<longleftrightarrow>
   (\<exists>c \<in> set cs. type c = LimitByProbabilityOrder \<and> legacy c)"
  by (simp add: probLimits_def fold_noteLimit_legacy initialLimits_def)

lemma applyPostConditions_shape:
  assumes "applyPostConditions lx os ws = Inr res"
    and "probLimitRangeCondition (probLimits (conditions os))"
  shows "res = [] \<or>
         (\<exists>pos len. res = mid (map snd (probMap lx (legacyProbCondition (probLimits (conditions os)))
            (filter (\<lambda>w. matchesConditions lx w (conditions os)) ws))) pos len)"
  using assms unfolding applyPostConditions_def sliceWindow_def Let_def
  by (auto split: if_splits)

text \<open>
  Up to 999,999,999 combinations the sort key does what its comment says.
  When a Limit by Probability Order condition is present and no surviving word
  can be drawn in more than 999,999,999 ways, the list returned by
  \<open>applyPostConditions\<close> is in ranking order: number of combinations
  descending, then, unless a Limit condition has the legacy flag, the alphagram
  followed by the word, compared as one text, and with the legacy flag the word
  alone.  When the returned words have the same length this is the order of
  the specification: alphagram ascending, then word ascending.  The words are
  compared in capitals.
\<close>

lemma limited_list_is_ranked:
  assumes "applyPostConditions lx os ws = Inr res"
    and "c \<in> set (conditions os)" and "type c = LimitByProbabilityOrder"
    and "\<forall>w \<in> set ws. getNumCombinations lx (toUpper w) \<le> 999999999"
    and "legacyOrder \<longleftrightarrow> (\<exists>c \<in> set (conditions os). type c = LimitByProbabilityOrder \<and> legacy c)"
  shows "sorted_wrt (rankedBefore lx legacyOrder) res \<and>
         ((\<forall>a \<in> set res. \<forall>b \<in> set res. length a = length b) \<longrightarrow>
            sorted_wrt (rankedBeforeAsStated lx legacyOrder) res)"
proof -
  let ?l = "probLimits (conditions os)"
  let ?survivors = "filter (\<lambda>w. matchesConditions lx w (conditions os)) ws"
  have lim: "probLimitRangeCondition ?l"
    using fold_noteLimit_bound [OF assms(2,3), of initialLimits] by (simp add: probLimits_def)
  have lg: "legacyProbCondition ?l = legacyOrder"
    using assms(5) by (simp add: probLimits_legacy)
  have by_radix: "sorted_wrt (\<lambda>a b. radix lx legacyOrder a < radix lx legacyOrder b) res"
    and sub: "set res \<subseteq> set ws"
  proof -
    from applyPostConditions_shape [OF assms(1) lim]
    consider "res = []"
      | pos len where "res = mid (map snd (probMap lx legacyOrder ?survivors)) pos len"
      unfolding lg by blast
    then have "sorted_wrt (\<lambda>a b. radix lx legacyOrder a < radix lx legacyOrder b) res \<and>
        set res \<subseteq> set ws"
    proof cases
      case 1
      then show ?thesis by simp
    next
      case 2
      have "set res \<subseteq> snd ` set (probMap lx legacyOrder ?survivors)"
        unfolding 2 using set_mid [of "map snd (probMap lx legacyOrder ?survivors)" pos len]
        by simp
      have "set res \<subseteq> set ws"
      proof
        fix w
        assume "w \<in> set res"
        then obtain e where e: "e \<in> set (probMap lx legacyOrder ?survivors)" and w: "w = snd e"
          using \<open>set res \<subseteq> snd ` set (probMap lx legacyOrder ?survivors)\<close> by blast
        from probMap_entry [OF e] have "snd e \<in> set ?survivors" by simp
        then show "w \<in> set ws" by (simp add: w)
      qed
      moreover have "sorted_wrt (\<lambda>a b. radix lx legacyOrder a < radix lx legacyOrder b) res"
        unfolding 2 by (rule sorted_wrt_mid) (rule probMap_values_sorted)
      ultimately show ?thesis by simp
    qed
    then show "sorted_wrt (\<lambda>a b. radix lx legacyOrder a < radix lx legacyOrder b) res"
      and "set res \<subseteq> set ws" by simp_all
  qed
  have ranked: "sorted_wrt (rankedBefore lx legacyOrder) res"
    using by_radix
  proof (rule sorted_wrt_mono_rel [rotated])
    fix a b
    assume a: "a \<in> set res" and b: "b \<in> set res"
      and less: "radix lx legacyOrder a < radix lx legacyOrder b"
    have ca: "getNumCombinations lx (toUpper a) \<le> 999999999"
      using a sub assms(4) by blast
    have cb: "getNumCombinations lx (toUpper b) \<le> 999999999"
      using b sub assms(4) by blast
    show "rankedBefore lx legacyOrder a b"
      using less by (simp only: radix_less_iff [OF ca cb])
  qed
  have "sorted_wrt (rankedBeforeAsStated lx legacyOrder) res"
    if same: "\<forall>a \<in> set res. \<forall>b \<in> set res. length a = length b"
    using ranked
  proof (rule sorted_wrt_mono_rel [rotated])
    fix a b
    assume a: "a \<in> set res" and b: "b \<in> set res" and r: "rankedBefore lx legacyOrder a b"
    have "length a = length b"
      using a b same by blast
    then show "rankedBeforeAsStated lx legacyOrder a b"
      using r by (simp only: rankedBefore_same_length)
  qed
  with ranked show ?thesis by blast
qed

lemma limited_list_is_ranked_example:
  "applyPostConditions careRace (anagramWithLimit 1 2 True) [''RACE'', ''CARE'']
     = Inr [''CARE'', ''RACE''] \<and>
   getNumCombinations careRace (toUpper ''RACE'') = 1296 \<and>
   getNumCombinations careRace (toUpper ''CARE'') = 1296 \<and>
   sorted_wrt (rankedBefore careRace False) [''CARE'', ''RACE''] \<and>
   sorted_wrt (rankedBeforeAsStated careRace False) [''CARE'', ''RACE'']"
proof -
  let ?c = "(newCondition LimitByProbabilityOrder [] 1 2)\<lparr>boolValue := True\<rparr>"
  have h1: "applyPostConditions careRace (anagramWithLimit 1 2 True) [''RACE'', ''CARE'']
     = Inr [''CARE'', ''RACE'']"
    by (simp add: string_eval fixture_eval post_eval)
  have h2: "?c \<in> set (conditions (anagramWithLimit 1 2 True))"
    by (simp add: fixture_eval)
  have h3: "type ?c = LimitByProbabilityOrder"
    by (simp add: fixture_eval)
  have h4: "\<forall>w \<in> set [''RACE'', ''CARE'']. getNumCombinations careRace (toUpper w) \<le> 999999999"
    by (simp add: careRace_def)
  have h5: "False \<longleftrightarrow> (\<exists>c \<in> set (conditions (anagramWithLimit 1 2 True)).
      type c = LimitByProbabilityOrder \<and> legacy c)"
    by (simp add: fixture_eval)
  have n: "getNumCombinations careRace (toUpper ''RACE'') = 1296"
    "getNumCombinations careRace (toUpper ''CARE'') = 1296"
    by (simp_all add: careRace_def)
  show ?thesis
    using h1 n limited_list_is_ranked [OF h1 h2 h3 h4 h5] by simp
qed

lemma decimal_fixedDigits:
  "10 ^ k \<le> n \<Longrightarrow> n < 10 ^ Suc k \<Longrightarrow> decimal n = fixedDigits (Suc k) n"
proof (induction k arbitrary: n)
  case 0
  then show ?case by (simp add: decimal.simps [of n])
next
  case (Suc k)
  have ge: "10 \<le> n"
  proof -
    have "(10 :: nat) \<le> 10 ^ Suc k" by simp
    then show ?thesis using Suc.prems(1) by (rule order_trans)
  qed
  have lo: "10 ^ k \<le> n div 10"
    using Suc.prems(1) by (simp add: less_eq_div_iff_mult_less_eq mult.commute)
  have hi: "n div 10 < 10 ^ Suc k"
    using Suc.prems(2) by (simp add: less_mult_imp_div_less mult.commute)
  have "decimal n = decimal (n div 10) @ [digitChars ! (n mod 10)]"
    using ge by (simp add: decimal.simps [of n])
  then show ?case
    using Suc.IH [OF lo hi] by simp
qed

text \<open>
  Beyond 999,999,999 combinations the number printed is negative: a minus sign
  and the digits of the excess, eight of them at least.
\<close>

lemma sprintf09_excess:
  assumes "999999999 < n" and "e = n - 999999999"
    and "e < 10 ^ Suc k" and "k = 7 \<or> (7 < k \<and> 10 ^ k \<le> e)"
  shows "sprintf09 (999999999 - int n) = CHR ''-'' # fixedDigits (Suc k) e"
proof -
  have neg: "999999999 - int n < 0" and e: "nat (- (999999999 - int n)) = e"
    using assms(1,2) by simp_all
  have "zeroFill 8 (decimal e) = fixedDigits (Suc k) e"
    using assms(4)
  proof
    assume k: "k = 7"
    have "zeroFill (Suc 7) (decimal e) = fixedDigits (Suc 7) e"
      using assms(3) unfolding k by (rule zeroFill_decimal)
    then show ?thesis by (simp add: k)
  next
    assume k: "7 < k \<and> 10 ^ k \<le> e"
    then have d: "decimal e = fixedDigits (Suc k) e"
      using assms(3) by (intro decimal_fixedDigits) simp_all
    have "8 - length (fixedDigits (Suc k) e) = 0"
      using k by simp
    then show ?thesis
      unfolding d zeroFill_def by simp
  qed
  then show ?thesis
    using neg e by (simp add: sprintf09_def)
qed

text \<open>
  Of two words with more than 999,999,999 combinations whose excesses have
  equally many digits (or fewer than nine both), the one with fewer
  combinations has the smaller key, whatever the lexicon: it comes first.
\<close>

lemma fewer_combinations_first_beyond_nine_digits:
  assumes "999999999 < getNumCombinations lx (toUpper a)"
    and "getNumCombinations lx (toUpper a) < getNumCombinations lx (toUpper b)"
    and "getNumCombinations lx (toUpper b) - 999999999 < 10 ^ Suc k"
    and "k = 7 \<or> (7 < k \<and> 10 ^ k \<le> getNumCombinations lx (toUpper a) - 999999999)"
  shows "radix lx lg a < radix lx lg b"
proof -
  let ?na = "getNumCombinations lx (toUpper a)" and ?nb = "getNumCombinations lx (toUpper b)"
  have lt: "?na - 999999999 < ?nb - 999999999"
    using assms(1,2) by simp
  have a3: "?na - 999999999 < 10 ^ Suc k"
    using lt assms(3) by simp
  have b1: "999999999 < ?nb"
    using assms(1,2) by simp
  have b4: "k = 7 \<or> (7 < k \<and> 10 ^ k \<le> ?nb - 999999999)"
    using assms(4) lt by auto
  have sa: "sprintf09 (999999999 - int ?na) = CHR ''-'' # fixedDigits (Suc k) (?na - 999999999)"
    using assms(1) refl a3 assms(4) by (rule sprintf09_excess)
  have sb: "sprintf09 (999999999 - int ?nb) = CHR ''-'' # fixedDigits (Suc k) (?nb - 999999999)"
    using b1 refl assms(3) b4 by (rule sprintf09_excess)
  have "fixedDigits (Suc k) (?na - 999999999) < fixedDigits (Suc k) (?nb - 999999999)"
    using lt assms(3) by (rule fixedDigits_mono)
  then have "CHR ''-'' # fixedDigits (Suc k) (?na - 999999999)
      < CHR ''-'' # fixedDigits (Suc k) (?nb - 999999999)"
    by simp
  then show ?thesis
    unfolding radix_def sa sb
    by (subst less_append_same_length) simp_all
qed

lemma addLetter_once:
  "addLetter (c, Suc 0) [w0, w1, w2] =
     [supplyOf c * w0, supplyOf c * w1 + w0, supplyOf c * w2 + w1]"
  by (simp add: addLetter_def numeral_3_eq_3)

lemma numCombinations_fold:
  assumes "fold addLetter (letterCounts w) [1, 0, 0] = [w0, w1, w2]"
  shows "numCombinations w = w0 + 2 * w1 + w2"
proof -
  have "supplyOf (CHR ''_'') = 2"
    by (simp add: supplyOf_def letterSupply_def)
  then show ?thesis
    using assms by (simp add: numCombinations_def Let_def numeral_2_eq_2 numeral_3_eq_3)
qed

lemma combinations_HYDROPNEUMATICS:
  "numCombinations ''HYDROPNEUMATICS'' = 59563081728"
proof -
  have "fold addLetter (letterCounts ''HYDROPNEUMATICS'') [1, 0, 0] =
      [3439853568, 14380498944, 27362230272]"
    by (simp add: letterCounts_def addLetter_once supplyOf_def letterSupply_def)
  from numCombinations_fold [OF this] show ?thesis by simp
qed

lemma combinations_UNCOPYRIGHTABLE:
  "numCombinations ''UNCOPYRIGHTABLE'' = 45947326464"
proof -
  have "fold addLetter (letterCounts ''UNCOPYRIGHTABLE'') [1, 0, 0] =
      [2579890176, 11000365056, 21366706176]"
    by (simp add: letterCounts_def addLetter_once supplyOf_def letterSupply_def)
  from numCombinations_fold [OF this] show ?thesis by simp
qed

text \<open>
  C4.  The ranking fails beyond 999,999,999 combinations.  The key is made
  to sort the words by probability order, and for a word that can be drawn in
  more ways it starts with a minus sign and the digits of the excess: of two
  such words the one with fewer combinations comes first.  HYDROPNEUMATICS
  can be drawn in more ways than UNCOPYRIGHTABLE and is returned after it, so
  the list returned is not in the order of the specification.
\<close>

theorem ranking_fails_beyond_nine_digits:
  "getNumCombinations bagWords ''HYDROPNEUMATICS'' = 59563081728 \<and>
   getNumCombinations bagWords ''UNCOPYRIGHTABLE'' = 45947326464 \<and>
   radix bagWords False ''HYDROPNEUMATICS''
     = ''-58563081729ACDEHIMNOPRSTUYHYDROPNEUMATICS'' \<and>
   radix bagWords False ''UNCOPYRIGHTABLE''
     = ''-44947326465ABCEGHILNOPRTUYUNCOPYRIGHTABLE'' \<and>
   applyPostConditions bagWords (limitOnly 1 2 True) [''HYDROPNEUMATICS'', ''UNCOPYRIGHTABLE'']
     = Inr [''UNCOPYRIGHTABLE'', ''HYDROPNEUMATICS''] \<and>
   applyPostConditions bagWords (limitOnly 1 1 True) [''HYDROPNEUMATICS'', ''UNCOPYRIGHTABLE'']
     = Inr [''UNCOPYRIGHTABLE''] \<and>
   \<not> sorted_wrt (rankedBeforeAsStated bagWords False) [''UNCOPYRIGHTABLE'', ''HYDROPNEUMATICS'']"
proof -
  have n: "getNumCombinations bagWords ''HYDROPNEUMATICS'' = 59563081728"
    "getNumCombinations bagWords ''UNCOPYRIGHTABLE'' = 45947326464"
    by (simp_all add: bagWords_def combinations_HYDROPNEUMATICS combinations_UNCOPYRIGHTABLE)
  have u: "toUpper ''HYDROPNEUMATICS'' = ''HYDROPNEUMATICS''"
    "toUpper ''UNCOPYRIGHTABLE'' = ''UNCOPYRIGHTABLE''"
    by (simp_all add: string_eval)
  have r: "radix bagWords False ''HYDROPNEUMATICS''
     = ''-58563081729ACDEHIMNOPRSTUYHYDROPNEUMATICS''"
    "radix bagWords False ''UNCOPYRIGHTABLE''
     = ''-44947326465ABCEGHILNOPRTUYUNCOPYRIGHTABLE''"
    by (simp_all add: radix_def u n sprintf09_def zeroFill_def decimal.simps digitChars_def
        getAlphagram_def)
  have m: "matchesConditions bagWords w (conditions (limitOnly lo hi True))" for w lo hi
    by (simp add: limitOnly_def specOf_def newCondition_def)
  have a2: "applyPostConditions bagWords (limitOnly 1 2 True)
      [''HYDROPNEUMATICS'', ''UNCOPYRIGHTABLE''] = Inr [''UNCOPYRIGHTABLE'', ''HYDROPNEUMATICS'']"
    by (simp add: applyPostConditions_def m probLimits_def noteLimit_def initialLimits_def
        limitOnly_def specOf_def newCondition_def rangeMin_def rangeMinLax_def rangeMax_def
        rangeMaxLax_def workingMin_def workingMax_def sliceWindow_def probMap_def r mid_def
        widenMin.simps widenMax.simps Let_def)
  have a1: "applyPostConditions bagWords (limitOnly 1 1 True)
      [''HYDROPNEUMATICS'', ''UNCOPYRIGHTABLE''] = Inr [''UNCOPYRIGHTABLE'']"
    by (simp add: applyPostConditions_def m probLimits_def noteLimit_def initialLimits_def
        limitOnly_def specOf_def newCondition_def rangeMin_def rangeMinLax_def rangeMax_def
        rangeMaxLax_def workingMin_def workingMax_def sliceWindow_def probMap_def r mid_def
        widenMin.simps widenMax.simps Let_def)
  have s: "\<not> sorted_wrt (rankedBeforeAsStated bagWords False)
      [''UNCOPYRIGHTABLE'', ''HYDROPNEUMATICS'']"
    by (simp add: rankedBeforeAsStated_def u n)
  from n r a2 a1 s show ?thesis by blast
qed

section \<open>Properties of the window\<close>

lemma qmapInsert_fresh:
  "k \<notin> fst ` set m \<Longrightarrow>
   set (qmapInsert k v m) = insert (k, v) (set m) \<and> length (qmapInsert k v m) = Suc (length m)"
proof (induction m)
  case Nil
  show ?case by simp
next
  case (Cons e m)
  obtain k' v' where e: "e = (k', v')" by (cases e)
  have ne: "k \<noteq> k'" and rest: "k \<notin> fst ` set m"
    using Cons.prems e by auto
  show ?case
    using Cons.IH [OF rest] ne by (auto simp: e)
qed

lemma fold_qmapInsert_fresh:
  "distinct (map f ws) \<Longrightarrow> f ` set ws \<inter> fst ` set m = {} \<Longrightarrow>
   set (fold (\<lambda>w m. qmapInsert (f w) w m) ws m) = set m \<union> (\<lambda>w. (f w, w)) ` set ws \<and>
   length (fold (\<lambda>w m. qmapInsert (f w) w m) ws m) = length m + length ws"
proof (induction ws arbitrary: m)
  case Nil
  show ?case by simp
next
  case (Cons w ws)
  have fresh: "f w \<notin> fst ` set m"
    using Cons.prems(2) by auto
  note ins = qmapInsert_fresh [OF fresh, of w]
  have d: "distinct (map f ws)" and nw: "f w \<notin> f ` set ws"
    using Cons.prems(1) by simp_all
  have disj: "f ` set ws \<inter> fst ` set (qmapInsert (f w) w m) = {}"
    using Cons.prems(2) nw ins by auto
  show ?case
    using Cons.IH [OF d disj] ins by auto
qed

lemma probMap_fresh:
  "distinct (map (radix lx lg) ws) \<Longrightarrow>
   set (probMap lx lg ws) = (\<lambda>w. (radix lx lg w, w)) ` set ws \<and>
   length (probMap lx lg ws) = length ws"
  unfolding probMap_def using fold_qmapInsert_fresh [of "radix lx lg" ws "[]"] by simp

lemma radix_prefix:
  assumes "getNumCombinations lx (toUpper w) \<le> 999999999"
  shows "take 9 (radix lx lg w) = fixedDigits 9 (999999999 - getNumCombinations lx (toUpper w))"
    and "drop 9 (radix lx lg w) = (if \<not> lg then getAlphagram (toUpper w) else []) @ toUpper w"
  unfolding radix_def sprintf09_count [OF assms] by simp_all

lemma radix_inj:
  assumes "getNumCombinations lx (toUpper a) \<le> 999999999"
    and "getNumCombinations lx (toUpper b) \<le> 999999999"
    and "radix lx lg a = radix lx lg b"
  shows "toUpper a = toUpper b"
proof -
  have e: "(if \<not> lg then getAlphagram (toUpper a) else []) @ toUpper a =
           (if \<not> lg then getAlphagram (toUpper b) else []) @ toUpper b"
    using radix_prefix(2) [OF assms(1), of lg] radix_prefix(2) [OF assms(2), of lg] assms(3)
    by simp
  show ?thesis
  proof (cases lg)
    case True
    then show ?thesis using e by simp
  next
    case False
    then have e': "sort (toUpper a) @ toUpper a = sort (toUpper b) @ toUpper b"
      using e by (simp add: getAlphagram_def)
    then have "length (sort (toUpper a) @ toUpper a) = length (sort (toUpper b) @ toUpper b)"
      by simp
    then have "length (sort (toUpper a)) = length (sort (toUpper b))"
      by simp
    then show ?thesis
      using e' by simp
  qed
qed

lemma radix_distinct:
  assumes "distinct (map toUpper ws)"
    and "\<forall>w \<in> set ws. getNumCombinations lx (toUpper w) \<le> 999999999"
  shows "distinct (map (radix lx lg) ws)"
proof -
  have d: "distinct ws" and inj: "inj_on toUpper (set ws)"
    using assms(1) by (simp_all add: distinct_map)
  have "inj_on (radix lx lg) (set ws)"
  proof (rule inj_onI)
    fix a b
    assume a: "a \<in> set ws" and b: "b \<in> set ws" and r: "radix lx lg a = radix lx lg b"
    have ca: "getNumCombinations lx (toUpper a) \<le> 999999999" using a assms(2) by blast
    have cb: "getNumCombinations lx (toUpper b) \<le> 999999999" using b assms(2) by blast
    have "toUpper a = toUpper b" by (rule radix_inj [OF ca cb r])
    then show "a = b" using inj a b by (simp add: inj_on_def)
  qed
  with d show ?thesis by (simp add: distinct_map)
qed

lemma prefix_eq_iff:
  assumes "getNumCombinations lx (toUpper a) \<le> 999999999"
    and "getNumCombinations lx (toUpper b) \<le> 999999999"
  shows "take 9 (radix lx lg a) = take 9 (radix lx lg b) \<longleftrightarrow>
         getNumCombinations lx (toUpper a) = getNumCombinations lx (toUpper b)"
proof -
  let ?na = "getNumCombinations lx (toUpper a)" and ?nb = "getNumCombinations lx (toUpper b)"
  have "fixedDigits 9 (999999999 - ?na) = fixedDigits 9 (999999999 - ?nb) \<longleftrightarrow>
        999999999 - ?na = 999999999 - ?nb"
    by (rule fixedDigits_inj) simp_all
  also have "\<dots> \<longleftrightarrow> ?na = ?nb"
    using assms by linarith
  finally show ?thesis
    by (simp only: radix_prefix(1) [OF assms(1)] radix_prefix(1) [OF assms(2)])
qed

lemma prefix_le_iff:
  assumes "getNumCombinations lx (toUpper a) \<le> 999999999"
    and "getNumCombinations lx (toUpper b) \<le> 999999999"
  shows "take 9 (radix lx lg a) \<le> take 9 (radix lx lg b) \<longleftrightarrow>
         getNumCombinations lx (toUpper b) \<le> getNumCombinations lx (toUpper a)"
proof -
  let ?na = "getNumCombinations lx (toUpper a)" and ?nb = "getNumCombinations lx (toUpper b)"
  have lt: "fixedDigits 9 (999999999 - ?nb) < fixedDigits 9 (999999999 - ?na) \<longleftrightarrow>
        999999999 - ?nb < 999999999 - ?na"
    by (rule fixedDigits_less_iff) simp_all
  have "fixedDigits 9 (999999999 - ?na) \<le> fixedDigits 9 (999999999 - ?nb) \<longleftrightarrow>
        \<not> (999999999 - ?nb < 999999999 - ?na)"
    using lt by (simp only: not_less [symmetric])
  also have "\<dots> \<longleftrightarrow> ?nb \<le> ?na"
    using assms by linarith
  finally show ?thesis
    by (simp only: radix_prefix(1) [OF assms(1)] radix_prefix(1) [OF assms(2)])
qed

lemma widenMin_spec:
  "0 \<le> m \<Longrightarrow>
   0 \<le> widenMin keys c lo m \<and> widenMin keys c lo m \<le> m \<and>
   (\<forall>i. widenMin keys c lo m \<le> i \<and> i < m \<longrightarrow> take 9 (keys ! nat i) = c) \<and>
   (widenMin keys c lo m = 0 \<or> widenMin keys c lo m \<le> lo \<or>
    take 9 (keys ! nat (widenMin keys c lo m - 1)) \<noteq> c)"
proof (induction keys c lo m rule: widenMin.induct)
  case (1 keys c lo m)
  show ?case
  proof (cases "m > 0 \<and> m > lo")
    case False
    have "widenMin keys c lo m = m"
      by (subst widenMin.simps) (simp only: False if_False)
    then show ?thesis
      using False "1.prems" by auto
  next
    case True
    show ?thesis
    proof (cases "c \<noteq> take 9 (keys ! nat (m - 1))")
      case stop: True
      have "widenMin keys c lo m = m"
        by (subst widenMin.simps) (simp only: True stop if_True simp_thms)
      then show ?thesis
        using stop "1.prems" by auto
    next
      case go: False
      have eq: "widenMin keys c lo m = widenMin keys c lo (m - 1)"
        by (subst widenMin.simps) (simp only: True go if_True if_False simp_thms)
      have ih: "0 \<le> widenMin keys c lo (m - 1) \<and> widenMin keys c lo (m - 1) \<le> m - 1 \<and>
          (\<forall>i. widenMin keys c lo (m - 1) \<le> i \<and> i < m - 1 \<longrightarrow> take 9 (keys ! nat i) = c) \<and>
          (widenMin keys c lo (m - 1) = 0 \<or> widenMin keys c lo (m - 1) \<le> lo \<or>
           take 9 (keys ! nat (widenMin keys c lo (m - 1) - 1)) \<noteq> c)"
        using "1.IH" [OF True] go True by simp
      have "\<forall>i. widenMin keys c lo (m - 1) \<le> i \<and> i < m \<longrightarrow> take 9 (keys ! nat i) = c"
      proof (intro allI impI)
        fix i
        assume i: "widenMin keys c lo (m - 1) \<le> i \<and> i < m"
        show "take 9 (keys ! nat i) = c"
        proof (cases "i = m - 1")
          case True
          then show ?thesis using go by simp
        next
          case False
          then have "i < m - 1" using i by simp
          then show ?thesis using ih i by blast
        qed
      qed
      then show ?thesis
        unfolding eq using ih by auto
    qed
  qed
qed

lemma widenMax_spec:
  "m \<le> widenMax keys c hi m \<and>
   (m \<le> int (length keys) - 1 \<longrightarrow> widenMax keys c hi m \<le> int (length keys) - 1) \<and>
   (\<forall>i. m < i \<and> i \<le> widenMax keys c hi m \<longrightarrow> take 9 (keys ! nat i) = c) \<and>
   (int (length keys) - 1 \<le> widenMax keys c hi m \<or> hi \<le> widenMax keys c hi m \<or>
    take 9 (keys ! nat (widenMax keys c hi m + 1)) \<noteq> c)"
proof (induction keys c hi m rule: widenMax.induct)
  case (1 keys c hi m)
  show ?case
  proof (cases "m < int (length keys) - 1 \<and> m < hi")
    case False
    have "widenMax keys c hi m = m"
      by (subst widenMax.simps) (simp only: False if_False)
    then show ?thesis
      using False by auto
  next
    case True
    show ?thesis
    proof (cases "c \<noteq> take 9 (keys ! nat (m + 1))")
      case stop: True
      have "widenMax keys c hi m = m"
        by (subst widenMax.simps) (simp only: True stop if_True simp_thms)
      then show ?thesis
        using stop True by auto
    next
      case go: False
      have eq: "widenMax keys c hi m = widenMax keys c hi (m + 1)"
        by (subst widenMax.simps) (simp only: True go if_True if_False simp_thms)
      have ih: "m + 1 \<le> widenMax keys c hi (m + 1) \<and>
          (m + 1 \<le> int (length keys) - 1 \<longrightarrow>
             widenMax keys c hi (m + 1) \<le> int (length keys) - 1) \<and>
          (\<forall>i. m + 1 < i \<and> i \<le> widenMax keys c hi (m + 1) \<longrightarrow> take 9 (keys ! nat i) = c) \<and>
          (int (length keys) - 1 \<le> widenMax keys c hi (m + 1) \<or>
           hi \<le> widenMax keys c hi (m + 1) \<or>
           take 9 (keys ! nat (widenMax keys c hi (m + 1) + 1)) \<noteq> c)"
        using "1.IH" [OF True] go by simp
      have "\<forall>i. m < i \<and> i \<le> widenMax keys c hi (m + 1) \<longrightarrow> take 9 (keys ! nat i) = c"
      proof (intro allI impI)
        fix i
        assume i: "m < i \<and> i \<le> widenMax keys c hi (m + 1)"
        show "take 9 (keys ! nat i) = c"
        proof (cases "i = m + 1")
          case True
          then show ?thesis using go by simp
        next
          case False
          then have "m + 1 < i" using i by simp
          then show ?thesis using ih i by blast
        qed
      qed
      then show ?thesis
        unfolding eq using ih True by auto
    qed
  qed
qed

lemma prefix_mono:
  assumes "sorted_wrt (<) (keys :: string list)" and "x \<le> y" and "y < length keys"
  shows "take 9 (keys ! x) \<le> take 9 (keys ! y)"
proof (cases "x = y")
  case True
  then show ?thesis by simp
next
  case False
  then have "x < y" using assms(2) by simp
  then have "keys ! x < keys ! y"
    using assms(1,3) by (simp add: sorted_wrt_nth_less)
  then have "keys ! x \<le> keys ! y" by simp
  then show ?thesis by (rule take_mono_le)
qed

lemma window_closed:
  fixes keys :: "string list"
  assumes sorted: "sorted_wrt (<) keys"
    and order: "a \<le> m0" "m0 \<le> m1" "m1 \<le> b" "b < length keys"
    and low: "\<forall>i. a \<le> i \<and> i \<le> m0 \<longrightarrow> take 9 (keys ! i) = take 9 (keys ! m0)"
    and high: "\<forall>i. m1 \<le> i \<and> i \<le> b \<longrightarrow> take 9 (keys ! i) = take 9 (keys ! m1)"
    and lstop: "a = 0 \<or> take 9 (keys ! (a - 1)) \<noteq> take 9 (keys ! m0)"
    and hstop: "b = length keys - 1 \<or> take 9 (keys ! (b + 1)) \<noteq> take 9 (keys ! m1)"
    and j: "j < length keys" and i: "a \<le> i" "i \<le> b"
    and tie: "take 9 (keys ! j) = take 9 (keys ! i)"
  shows "a \<le> j \<and> j \<le> b"
proof -
  note mono = prefix_mono [OF sorted]
  have pa: "take 9 (keys ! a) = take 9 (keys ! m0)"
    using low order by blast
  have pb: "take 9 (keys ! b) = take 9 (keys ! m1)"
    using high order by blast
  have "a \<le> j"
  proof (rule ccontr)
    assume "\<not> a \<le> j"
    then have ja: "j < a" by simp
    then have stop: "take 9 (keys ! (a - 1)) \<noteq> take 9 (keys ! a)"
      using lstop pa by auto
    have 1: "take 9 (keys ! j) \<le> take 9 (keys ! (a - 1))"
      using ja order by (intro mono) auto
    have 2: "take 9 (keys ! (a - 1)) \<le> take 9 (keys ! a)"
      using order by (intro mono) auto
    have 3: "take 9 (keys ! a) \<le> take 9 (keys ! i)"
      using i order by (intro mono) auto
    have "take 9 (keys ! a) \<le> take 9 (keys ! j)"
      using 3 tie by simp
    then have "take 9 (keys ! a) \<le> take 9 (keys ! (a - 1))"
      using 1 by (rule order.trans)
    with 2 have "take 9 (keys ! (a - 1)) = take 9 (keys ! a)"
      by (rule order_antisym)
    with stop show False by simp
  qed
  moreover have "j \<le> b"
  proof (rule ccontr)
    assume "\<not> j \<le> b"
    then have jb: "b < j" by simp
    then have "b \<noteq> length keys - 1" using j by simp
    then have stop: "take 9 (keys ! (b + 1)) \<noteq> take 9 (keys ! b)"
      using hstop pb by auto
    have 1: "take 9 (keys ! i) \<le> take 9 (keys ! b)"
      using i order by (intro mono) auto
    have 2: "take 9 (keys ! b) \<le> take 9 (keys ! (b + 1))"
      using jb j by (intro mono) auto
    have 3: "take 9 (keys ! (b + 1)) \<le> take 9 (keys ! j)"
      using jb j by (intro mono) auto
    have "take 9 (keys ! j) \<le> take 9 (keys ! b)"
      using 1 tie by simp
    with 3 have "take 9 (keys ! (b + 1)) \<le> take 9 (keys ! b)"
      by (rule order.trans)
    then have "take 9 (keys ! (b + 1)) = take 9 (keys ! b)"
      using 2 by (rule order_antisym)
    with stop show False by simp
  qed
  ultimately show ?thesis by simp
qed

lemma sliceWindow_lax:
  assumes "0 \<le> min0" "min0 \<le> max0" "max0 < int (length pm)"
  shows "\<exists>a b. sliceWindow pm 0 (int (length pm) - 1) min0 max0
             = Inr (take (b - a + 1) (drop a (map snd pm))) \<and>
           a \<le> nat min0 \<and> nat max0 \<le> b \<and> b < length pm \<and>
           (\<forall>i. a \<le> i \<and> i \<le> nat min0 \<longrightarrow>
              take 9 (map fst pm ! i) = take 9 (map fst pm ! nat min0)) \<and>
           (\<forall>i. nat max0 \<le> i \<and> i \<le> b \<longrightarrow>
              take 9 (map fst pm ! i) = take 9 (map fst pm ! nat max0)) \<and>
           (a = 0 \<or> take 9 (map fst pm ! (a - 1)) \<noteq> take 9 (map fst pm ! nat min0)) \<and>
           (b = length pm - 1 \<or> take 9 (map fst pm ! (b + 1)) \<noteq> take 9 (map fst pm ! nat max0))"
proof -
  define keys where "keys = map fst pm"
  define c1 where "c1 = take 9 (keys ! nat min0)"
  define c2 where "c2 = take 9 (keys ! nat max0)"
  define min1 where "min1 = widenMin keys c1 0 min0"
  define max1 where "max1 = widenMax keys c2 (int (length keys) - 1) max0"
  have len: "length keys = length pm" by (simp add: keys_def)
  have lo: "0 \<le> min1" "min1 \<le> min0"
    "\<forall>i. min1 \<le> i \<and> i < min0 \<longrightarrow> take 9 (keys ! nat i) = c1"
    "min1 = 0 \<or> take 9 (keys ! nat (min1 - 1)) \<noteq> c1"
    using widenMin_spec [OF assms(1), of keys c1 0] unfolding min1_def by auto
  have m0: "max0 \<le> int (length keys) - 1"
    using assms(3) len by simp
  have hi: "max0 \<le> max1" "max1 \<le> int (length keys) - 1"
    "\<forall>i. max0 < i \<and> i \<le> max1 \<longrightarrow> take 9 (keys ! nat i) = c2"
    "int (length keys) - 1 \<le> max1 \<or> take 9 (keys ! nat (max1 + 1)) \<noteq> c2"
    using widenMax_spec [of max0 keys c2 "int (length keys) - 1"] m0 unfolding max1_def by auto
  have sw: "sliceWindow pm 0 (int (length pm) - 1) min0 max0
      = Inr (mid (map snd pm) min1 (max1 - min1 + 1))"
    using assms unfolding sliceWindow_def Let_def min1_def max1_def c1_def c2_def keys_def
    by simp
  have md: "mid (map snd pm) min1 (max1 - min1 + 1)
      = take (nat max1 - nat min1 + 1) (drop (nat min1) (map snd pm))"
  proof -
    have "\<not> (max1 - min1 + 1 < 0 \<or> min1 + (max1 - min1 + 1) > int (length (map snd pm)))"
      using lo(1,2) hi(1,2) assms(2) len by simp
    moreover have "nat (max1 - min1 + 1) = nat max1 - nat min1 + 1"
      using lo(1,2) hi(1) assms(2) by simp
    ultimately show ?thesis
      by (simp only: mid_def if_False)
  qed
  have low: "\<forall>i. nat min1 \<le> i \<and> i \<le> nat min0 \<longrightarrow> take 9 (keys ! i) = take 9 (keys ! nat min0)"
  proof (intro allI impI)
    fix i :: nat
    assume i: "nat min1 \<le> i \<and> i \<le> nat min0"
    show "take 9 (keys ! i) = take 9 (keys ! nat min0)"
    proof (cases "i = nat min0")
      case True
      then show ?thesis by simp
    next
      case False
      then have "min1 \<le> int i \<and> int i < min0" using i lo(1) by linarith
      then have "take 9 (keys ! nat (int i)) = c1" using lo(3) by blast
      then show ?thesis by (simp add: c1_def)
    qed
  qed
  have high: "\<forall>i. nat max0 \<le> i \<and> i \<le> nat max1 \<longrightarrow> take 9 (keys ! i) = take 9 (keys ! nat max0)"
  proof (intro allI impI)
    fix i :: nat
    assume i: "nat max0 \<le> i \<and> i \<le> nat max1"
    show "take 9 (keys ! i) = take 9 (keys ! nat max0)"
    proof (cases "i = nat max0")
      case True
      then show ?thesis by simp
    next
      case False
      then have "max0 < int i \<and> int i \<le> max1" using i assms(1,2) by linarith
      then have "take 9 (keys ! nat (int i)) = c2" using hi(3) by blast
      then show ?thesis by (simp add: c2_def)
    qed
  qed
  have lstop: "nat min1 = 0 \<or> take 9 (keys ! (nat min1 - 1)) \<noteq> take 9 (keys ! nat min0)"
  proof (cases "min1 = 0")
    case True
    then show ?thesis by simp
  next
    case False
    then have "take 9 (keys ! nat (min1 - 1)) \<noteq> c1" using lo(4) by simp
    moreover have "nat (min1 - 1) = nat min1 - 1" by simp
    ultimately show ?thesis by (simp add: c1_def)
  qed
  have hstop: "nat max1 = length pm - 1 \<or>
      take 9 (keys ! (nat max1 + 1)) \<noteq> take 9 (keys ! nat max0)"
  proof (cases "int (length keys) - 1 \<le> max1")
    case True
    then have "max1 = int (length keys) - 1" using hi(2) by simp
    then have "nat max1 = length pm - 1" using len by arith
    then show ?thesis by simp
  next
    case False
    then have "take 9 (keys ! nat (max1 + 1)) \<noteq> c2" using hi(4) by simp
    moreover have "nat (max1 + 1) = nat max1 + 1"
      using hi(1) assms(1,2) by simp
    ultimately show ?thesis by (simp add: c2_def)
  qed
  have bounds: "nat min1 \<le> nat min0" "nat max0 \<le> nat max1" "nat max1 < length pm"
    using lo(1,2) hi(1,2) assms len by simp_all
  have "sliceWindow pm 0 (int (length pm) - 1) min0 max0
      = Inr (take (nat max1 - nat min1 + 1) (drop (nat min1) (map snd pm)))"
    using sw md by simp
  then show ?thesis
    using bounds low high lstop hstop unfolding keys_def by blast
qed

lemma noteLimit_other: "type c \<noteq> LimitByProbabilityOrder \<Longrightarrow> noteLimit c l = l"
  by (simp add: noteLimit_def)

lemma fold_noteLimit_filter:
  "fold noteLimit cs l = fold noteLimit (filter (\<lambda>c. type c = LimitByProbabilityOrder) cs) l"
  by (induction cs arbitrary: l) (simp_all add: noteLimit_other)

lemma fold_noteLimit_lax:
  assumes "\<forall>c \<in> set ls. type c = LimitByProbabilityOrder \<and> boolValue c"
  shows "probLimitRangeMin (fold noteLimit ls l) = probLimitRangeMin l"
    and "probLimitRangeMax (fold noteLimit ls l) = probLimitRangeMax l"
    and "probLimitRangeMinLax (fold noteLimit ls l)
           = fold max (map minValue ls) (probLimitRangeMinLax l)"
    and "probLimitRangeMaxLax (fold noteLimit ls l)
           = fold min (map maxValue ls) (probLimitRangeMaxLax l)"
    and "probLimitRangeCondition (fold noteLimit ls l) \<longleftrightarrow> probLimitRangeCondition l \<or> ls \<noteq> []"
  using assms
  by (induction ls arbitrary: l) (simp_all add: noteLimit_def Let_def max_def min_def)

lemma fold_max_init:
  "fold max ms (max a b) = max (a :: int) (fold max ms b)"
proof (induction ms arbitrary: b)
  case Nil
  show ?case by simp
next
  case (Cons m ms)
  have "max m (max a b) = max a (max m b)"
    by (rule max.left_commute)
  then show ?case
    using Cons.IH [of "max m b"] by simp
qed

lemma Max_one_zero:
  "Max (set (1 # ms)) = max (1 :: int) (Max (set (0 # ms)))"
proof -
  have "fold max ms (max 1 0) = max (1 :: int) (fold max ms 0)"
    by (rule fold_max_init)
  then have "fold max ms 1 = max (1 :: int) (fold max ms 0)"
    by simp
  then show ?thesis
    by (simp only: Max.set_eq_fold)
qed

lemma set_take_drop_range:
  assumes "a \<le> b" and "b < length xs"
  shows "set (take (b - a + 1) (drop a xs)) = {xs ! i | i. a \<le> i \<and> i \<le> b}"
proof -
  let ?ys = "take (b - a + 1) (drop a xs)"
  have len: "length ?ys = b - a + 1"
    using assms by simp
  have nth: "?ys ! i = xs ! (a + i)" if "i < b - a + 1" for i
    using that assms by simp
  show ?thesis
  proof (intro set_eqI iffI)
    fix x
    assume "x \<in> set ?ys"
    then obtain i where i: "i < b - a + 1" and x: "?ys ! i = x"
      unfolding in_set_conv_nth len by blast
    have "x = xs ! (a + i)" using nth [OF i] x by simp
    moreover have "a \<le> a + i \<and> a + i \<le> b" using i assms by simp
    ultimately show "x \<in> {xs ! i | i. a \<le> i \<and> i \<le> b}" by blast
  next
    fix x
    assume "x \<in> {xs ! i | i. a \<le> i \<and> i \<le> b}"
    then obtain j where j: "a \<le> j" "j \<le> b" and x: "x = xs ! j" by blast
    have i: "j - a < b - a + 1" using j by simp
    have "?ys ! (j - a) = x" using nth [OF i] j x by simp
    then show "x \<in> set ?ys"
      unfolding in_set_conv_nth len using i by blast
  qed
qed

text \<open>A predicate that holds of the elements from index \<open>a\<close> to index \<open>b\<close> and
  of no other selects that segment.\<close>

lemma filter_segment:
  assumes "a \<le> b" and "b < length xs"
    and below: "\<forall>i. i < a \<longrightarrow> \<not> P (xs ! i)"
    and inside: "\<forall>i. a \<le> i \<and> i \<le> b \<longrightarrow> P (xs ! i)"
    and above: "\<forall>i. b < i \<and> i < length xs \<longrightarrow> \<not> P (xs ! i)"
  shows "filter P xs = take (b - a + 1) (drop a xs)"
proof -
  let ?mid = "take (b - a + 1) (drop a xs)"
  have "drop (b + 1) xs = drop (b - a + 1) (drop a xs)"
    using assms(1) by simp
  then have "?mid @ drop (b + 1) xs = drop a xs"
    by (simp only: append_take_drop_id)
  then have "take a xs @ ?mid @ drop (b + 1) xs = xs"
    by (simp only: append_take_drop_id)
  then have split: "filter P xs = filter P (take a xs @ ?mid @ drop (b + 1) xs)"
    by (rule arg_cong [symmetric])
  have f1: "filter P (take a xs) = []"
  proof -
    have "\<not> P x" if "x \<in> set (take a xs)" for x
    proof -
      from that obtain i where i: "i < length (take a xs)" "take a xs ! i = x"
        unfolding in_set_conv_nth by blast
      then have "i < a" "x = xs ! i" by simp_all
      then show ?thesis using below by blast
    qed
    then show ?thesis by (simp add: filter_empty_conv)
  qed
  have f2: "filter P ?mid = ?mid"
  proof -
    have "P x" if "x \<in> set ?mid" for x
      using that inside unfolding set_take_drop_range [OF assms(1,2)] by blast
    then show ?thesis by (intro filter_True ballI)
  qed
  have f3: "filter P (drop (b + 1) xs) = []"
  proof -
    have "\<not> P x" if "x \<in> set (drop (b + 1) xs)" for x
    proof -
      from that obtain k where k: "k < length (drop (b + 1) xs)" "drop (b + 1) xs ! k = x"
        unfolding in_set_conv_nth by blast
      then have "b < b + 1 + k \<and> b + 1 + k < length xs" "x = xs ! (b + 1 + k)"
        using assms(2) by simp_all
      then show ?thesis using above by blast
    qed
    then show ?thesis by (simp add: filter_empty_conv)
  qed
  show ?thesis
    unfolding split by (simp only: filter_append f1 f2 f3 append_Nil append_Nil2)
qed

lemma combinations_of_short_words:
  "numCombinations ''LION'' = 4250"
  "numCombinations ''CARE'' = 3816"
  "numCombinations ''RACE'' = 3816"
  "numCombinations ''QUIZ'' = 269"
proof -
  have "fold addLetter (letterCounts ''LION'') [1, 0, 0] = [1728, 1128, 266]"
    by (simp add: letterCounts_def addLetter_once supplyOf_def letterSupply_def)
  from numCombinations_fold [OF this] show "numCombinations ''LION'' = 4250" by simp
  have "fold addLetter (letterCounts ''CARE'') [1, 0, 0] = [1296, 1116, 288]"
    by (simp add: letterCounts_def addLetter_once supplyOf_def letterSupply_def)
  from numCombinations_fold [OF this] show "numCombinations ''CARE'' = 3816" by simp
  have "fold addLetter (letterCounts ''RACE'') [1, 0, 0] = [1296, 1116, 288]"
    by (simp add: letterCounts_def addLetter_once supplyOf_def letterSupply_def)
  from numCombinations_fold [OF this] show "numCombinations ''RACE'' = 3816" by simp
  have "fold addLetter (letterCounts ''QUIZ'') [1, 0, 0] = [36, 85, 63]"
    by (simp add: letterCounts_def addLetter_once supplyOf_def letterSupply_def)
  from numCombinations_fold [OF this] show "numCombinations ''QUIZ'' = 269" by simp
qed

text \<open>
  C3, as the code has it.  Take Limit by Probability Order conditions that
  are all lax, \<open>lo\<close> the largest of their lower bounds (and at least 1) and
  \<open>hi\<close> the smallest of their upper bounds, with \<open>lo \<le> hi\<close>, and a list of
  \<open>n\<close> survivors, \<open>lo \<le> n \<le> 999,999\<close>, no two of them equal in capitals, none
  with more than 999,999,999 combinations.  Let \<open>ranked\<close> be the survivors in
  the order of their sort keys: it is the list of the survivors in ranking
  order.  Then \<open>applyPostConditions\<close> returns the window from rank \<open>lo\<close> to
  rank \<open>min hi n\<close> widened outward over ties: exactly the words of \<open>ranked\<close>,
  in that order, whose number of combinations lies between that of the word of
  rank \<open>min hi n\<close> and that of the word of rank \<open>lo\<close>.  So the words of the
  window are returned, every survivor with the number of combinations of a
  returned word is returned with it, and for \<open>lo = hi = 1\<close> the list holds
  exactly the survivors with the highest number of combinations.
\<close>

theorem lax_limit_keeps_ties_together:
  assumes lims: "limits = filter (\<lambda>c. type c = LimitByProbabilityOrder) (conditions os)"
    and some: "limits \<noteq> []"
    and lax: "\<forall>c \<in> set limits. boolValue c"
    and lo: "lo = Max (set (1 # map minValue limits))"
    and hi: "hi = Min (set (999999 # map maxValue limits))"
    and lg: "lg \<longleftrightarrow> (\<exists>c \<in> set limits. legacy c)"
    and surv: "survivors = filter (\<lambda>w. matchesConditions lx w (conditions os)) ws"
    and n: "n = length survivors"
    and bounds: "lo \<le> hi" "lo \<le> int n" "n \<le> 999999"
    and dist: "distinct (map toUpper survivors)"
    and counts: "\<forall>w \<in> set survivors. getNumCombinations lx (toUpper w) \<le> 999999999"
    and ranked: "ranked = map snd (probMap lx lg survivors)"
    and count: "count = (\<lambda>w. getNumCombinations lx (toUpper w))"
    and res: "res = filter (\<lambda>w. count (ranked ! (nat (min hi (int n)) - 1)) \<le> count w \<and>
                               count w \<le> count (ranked ! (nat lo - 1))) ranked"
  shows "set ranked = set survivors \<and> distinct ranked \<and>
         sorted_wrt (rankedBefore lx lg) ranked \<and>
         applyPostConditions lx os ws = Inr res \<and>
         (\<forall>i. nat lo - 1 \<le> i \<and> i \<le> nat (min hi (int n)) - 1 \<longrightarrow> ranked ! i \<in> set res) \<and>
         (\<forall>w \<in> set survivors. \<forall>r \<in> set res. count w = count r \<longrightarrow> w \<in> set res) \<and>
         (lo = 1 \<and> hi = 1 \<longrightarrow>
            set res = {w \<in> set survivors. \<forall>v \<in> set survivors. count v \<le> count w})"
proof -
  define l where "l = probLimits (conditions os)"
  define pm where "pm = probMap lx lg survivors"
  define keys where "keys = map fst pm"
  define vals where "vals = map snd pm"
  define min0 where "min0 = lo - 1"
  define max0 where "max0 = min hi (int n) - 1"
  have vr: "vals = ranked"
    by (simp add: vals_def pm_def ranked)
  have all: "\<forall>c \<in> set limits. type c = LimitByProbabilityOrder \<and> boolValue c"
    using lax by (simp add: lims)
  have pl: "l = fold noteLimit limits initialLimits"
    unfolding l_def probLimits_def lims by (rule fold_noteLimit_filter)
  note fl = fold_noteLimit_lax [OF all, of initialLimits, folded pl]
  have l1: "probLimitRangeCondition l"
    using fl(5) some by simp
  have l2: "probLimitRangeMin l = 0" "probLimitRangeMax l = 999999"
    using fl(1,2) by (simp_all add: initialLimits_def)
  have init: "probLimitRangeMinLax initialLimits = 0" "probLimitRangeMaxLax initialLimits = 999999"
    by (simp_all add: initialLimits_def)
  have l3: "probLimitRangeMinLax l = Max (set (0 # map minValue limits))"
    using fl(3) by (simp only: init Max.set_eq_fold)
  have l4: "probLimitRangeMaxLax l = hi"
    using fl(4) by (simp only: init hi Min.set_eq_fold)
  have lo_max: "lo = max 1 (probLimitRangeMinLax l)"
    unfolding lo l3 by (rule Max_one_zero)
  have l5: "legacyProbCondition l = lg"
    by (auto simp: l_def probLimits_legacy lg lims)
  have lo1: "1 \<le> lo"
    using lo_max by simp
  have n1: "lo \<le> int n" and n2: "int n \<le> 999999"
    using bounds by simp_all
  have rmin: "rangeMin l = 0"
    by (simp add: rangeMin_def l2)
  have rmax: "rangeMax l (int n) = int n - 1"
    using n2 by (simp add: rangeMax_def l2)
  have rminl: "rangeMinLax l = min0"
    using lo_max by (simp add: rangeMinLax_def min0_def max_def split: if_splits)
  have rmaxl: "rangeMaxLax l (int n) = max0"
    by (simp add: rangeMaxLax_def l4 max0_def min_def)
  have wmin: "workingMin l = min0"
    using lo1 by (simp add: workingMin_def rmin rminl min0_def)
  have wmax: "workingMax l (int n) = max0"
    by (simp add: workingMax_def rmax rmaxl max0_def min_def)
  have early: "\<not> (probLimitRangeMin l > int n \<or> probLimitRangeMinLax l > int n)"
    using n1 lo_max by (simp add: l2)
  have apply_eq: "applyPostConditions lx os ws = sliceWindow pm 0 (int n - 1) min0 max0"
    unfolding applyPostConditions_def Let_def surv [symmetric] l_def [symmetric]
      n [symmetric]
    using early l1 by (simp add: l5 rmin rmax wmin wmax pm_def)
  have dr: "distinct (map (radix lx lg) survivors)"
    by (rule radix_distinct [OF dist counts])
  have pm_len: "length pm = n" and pm_set: "set pm = (\<lambda>w. (radix lx lg w, w)) ` set survivors"
    using probMap_fresh [OF dr] by (simp_all add: pm_def n)
  have sorted: "sorted_wrt (<) keys"
    unfolding keys_def pm_def by (rule probMap_sorted)
  have len: "length keys = n" "length vals = n"
    by (simp_all add: keys_def vals_def pm_len)
  have entry: "keys ! i = radix lx lg (vals ! i) \<and> vals ! i \<in> set survivors" if "i < n" for i
  proof -
    have "pm ! i \<in> set pm" using that pm_len by simp
    then have "fst (pm ! i) = radix lx lg (snd (pm ! i)) \<and> snd (pm ! i) \<in> set survivors"
      unfolding pm_def by (rule probMap_entry)
    then show ?thesis
      using that pm_len by (simp add: keys_def vals_def)
  qed
  have bound: "getNumCombinations lx (toUpper (vals ! i)) \<le> 999999999" if "i < n" for i
    using entry [OF that] counts by simp
  have tie_iff: "take 9 (keys ! i) = take 9 (keys ! j) \<longleftrightarrow> count (vals ! i) = count (vals ! j)"
    if "i < n" "j < n" for i j
    using prefix_eq_iff [OF bound [OF that(1)] bound [OF that(2)], of lg]
      entry [OF that(1)] entry [OF that(2)] by (simp add: count)
  have le_iff: "take 9 (keys ! i) \<le> take 9 (keys ! j) \<longleftrightarrow> count (vals ! j) \<le> count (vals ! i)"
    if "i < n" "j < n" for i j
    using prefix_le_iff [OF bound [OF that(1)] bound [OF that(2)], of lg]
      entry [OF that(1)] entry [OF that(2)] by (simp add: count)
  have mono: "count (vals ! j) \<le> count (vals ! i)" if "i \<le> j" "j < n" for i j
  proof -
    have "take 9 (keys ! i) \<le> take 9 (keys ! j)"
      using prefix_mono [OF sorted that(1)] that(2) len(1) by simp
    moreover have "i < n" using that by simp
    ultimately show ?thesis
      using le_iff [of i j] that(2) by simp
  qed
  have vals_set: "set vals = set survivors"
    by (simp add: vals_def pm_set image_image)
  have vals_distinct: "distinct vals"
  proof -
    have "distinct survivors"
      using dist by (simp add: distinct_map)
    then have "card (set vals) = length vals"
      by (simp add: vals_set len(2) n distinct_card)
    then show ?thesis
      by (rule card_distinct)
  qed
  have vals_ranked: "sorted_wrt (rankedBefore lx lg) vals"
  proof -
    have "sorted_wrt (\<lambda>a b. radix lx lg a < radix lx lg b) vals"
      unfolding vals_def pm_def by (rule probMap_values_sorted)
    then show ?thesis
    proof (rule sorted_wrt_mono_rel [rotated])
      fix a b
      assume a: "a \<in> set vals" and b: "b \<in> set vals"
        and less: "radix lx lg a < radix lx lg b"
      have ca: "getNumCombinations lx (toUpper a) \<le> 999999999"
        using a vals_set counts by blast
      have cb: "getNumCombinations lx (toUpper b) \<le> 999999999"
        using b vals_set counts by blast
      show "rankedBefore lx lg a b"
        using less by (simp only: radix_less_iff [OF ca cb])
    qed
  qed
  have index: "\<exists>j < n. vals ! j = w" if "w \<in> set survivors" for w
    using that vals_set len(2) by (metis in_set_conv_nth)
  have w0: "0 \<le> min0" "min0 \<le> max0" "max0 < int (length pm)"
    using bounds lo1 by (simp_all add: min0_def max0_def pm_len)
  from sliceWindow_lax [OF w0] obtain a b where
    sw: "sliceWindow pm 0 (int (length pm) - 1) min0 max0
           = Inr (take (b - a + 1) (drop a (map snd pm)))"
    and ab: "a \<le> nat min0" "nat max0 \<le> b" "b < length pm"
    and low: "\<forall>i. a \<le> i \<and> i \<le> nat min0 \<longrightarrow>
        take 9 (map fst pm ! i) = take 9 (map fst pm ! nat min0)"
    and high: "\<forall>i. nat max0 \<le> i \<and> i \<le> b \<longrightarrow>
        take 9 (map fst pm ! i) = take 9 (map fst pm ! nat max0)"
    and lstop: "a = 0 \<or> take 9 (map fst pm ! (a - 1)) \<noteq> take 9 (map fst pm ! nat min0)"
    and hstop: "b = length pm - 1 \<or>
        take 9 (map fst pm ! (b + 1)) \<noteq> take 9 (map fst pm ! nat max0)"
    by blast
  define sl where "sl = take (b - a + 1) (drop a vals)"
  have m01: "nat min0 \<le> nat max0" using w0 by simp
  have ab': "a \<le> b" using ab m01 by simp
  have bn: "b < n" using ab pm_len by simp
  have mn: "nat min0 < n" "nat max0 < n" using ab bn m01 by simp_all
  have i0: "nat lo - 1 = nat min0" "nat (min hi (int n)) - 1 = nat max0"
    by (simp_all add: min0_def max0_def)
  have result: "applyPostConditions lx os ws = Inr sl"
    using sw by (simp add: apply_eq pm_len sl_def vals_def)
  have sl_set: "set sl = {vals ! i | i. a \<le> i \<and> i \<le> b}"
    unfolding sl_def using ab' bn len(2) by (intro set_take_drop_range) simp_all
  have closed: "a \<le> j \<and> j \<le> b"
    if "j < n" "a \<le> i" "i \<le> b" "take 9 (keys ! j) = take 9 (keys ! i)" for i j
    using window_closed [OF sorted ab(1) m01 ab(2) _ low [folded keys_def] high [folded keys_def]
        lstop [folded keys_def] _ _ that(2,3,4)] that(1) bn len(1) hstop [folded keys_def] pm_len
    by simp
  have sub: "set sl \<subseteq> set survivors"
    unfolding sl_def vals_set [symmetric] by (meson in_set_dropD in_set_takeD subsetI)
  have at_a: "count (vals ! a) = count (vals ! nat min0)"
  proof -
    have "take 9 (keys ! a) = take 9 (keys ! nat min0)"
      using low [folded keys_def] ab(1) by blast
    moreover have "a < n" using ab' bn by simp
    ultimately show ?thesis
      using tie_iff [of a "nat min0"] mn(1) by simp
  qed
  have at_b: "count (vals ! b) = count (vals ! nat max0)"
  proof -
    have "take 9 (keys ! b) = take 9 (keys ! nat max0)"
      using high [folded keys_def] ab(2) by blast
    then show ?thesis
      using tie_iff [OF bn mn(2)] by simp
  qed
  have inside: "\<forall>i. a \<le> i \<and> i \<le> b \<longrightarrow>
      count (vals ! nat max0) \<le> count (vals ! i) \<and> count (vals ! i) \<le> count (vals ! nat min0)"
  proof (intro allI impI)
    fix i
    assume i: "a \<le> i \<and> i \<le> b"
    then have "i < n" using bn by simp
    have "count (vals ! i) \<le> count (vals ! a)"
      using i \<open>i < n\<close> by (intro mono) simp_all
    moreover have "count (vals ! b) \<le> count (vals ! i)"
      using i bn by (intro mono) simp_all
    ultimately show "count (vals ! nat max0) \<le> count (vals ! i) \<and>
        count (vals ! i) \<le> count (vals ! nat min0)"
      by (simp only: at_a at_b)
  qed
  have below: "\<forall>i. i < a \<longrightarrow>
      \<not> (count (vals ! nat max0) \<le> count (vals ! i) \<and> count (vals ! i) \<le> count (vals ! nat min0))"
  proof (intro allI impI)
    fix i
    assume i: "i < a"
    then have a0: "a \<noteq> 0" by simp
    have an: "a < n" "a - 1 < n" using ab' bn by simp_all
    have "take 9 (keys ! (a - 1)) \<noteq> take 9 (keys ! nat min0)"
      using lstop [folded keys_def] a0 by simp
    then have ne: "count (vals ! (a - 1)) \<noteq> count (vals ! nat min0)"
      using tie_iff [OF an(2) mn(1)] by simp
    have "count (vals ! a) \<le> count (vals ! (a - 1))"
      using an by (intro mono) simp_all
    then have gt: "count (vals ! nat min0) < count (vals ! (a - 1))"
      using ne at_a by simp
    have "count (vals ! (a - 1)) \<le> count (vals ! i)"
      using i an by (intro mono) simp_all
    then have "count (vals ! nat min0) < count (vals ! i)"
      using gt by simp
    then show "\<not> (count (vals ! nat max0) \<le> count (vals ! i) \<and>
        count (vals ! i) \<le> count (vals ! nat min0))"
      by simp
  qed
  have above: "\<forall>i. b < i \<and> i < length vals \<longrightarrow>
      \<not> (count (vals ! nat max0) \<le> count (vals ! i) \<and> count (vals ! i) \<le> count (vals ! nat min0))"
  proof (intro allI impI)
    fix i
    assume i: "b < i \<and> i < length vals"
    then have iN: "i < n" and bN: "b + 1 < n" using len(2) by simp_all
    then have "b \<noteq> length pm - 1" using pm_len by simp
    then have "take 9 (keys ! (b + 1)) \<noteq> take 9 (keys ! nat max0)"
      using hstop [folded keys_def] by simp
    then have ne: "count (vals ! (b + 1)) \<noteq> count (vals ! nat max0)"
      using tie_iff [OF bN mn(2)] by simp
    have "count (vals ! (b + 1)) \<le> count (vals ! b)"
      using bN by (intro mono) simp_all
    then have lt: "count (vals ! (b + 1)) < count (vals ! nat max0)"
      using ne at_b by simp
    have "count (vals ! i) \<le> count (vals ! (b + 1))"
      using i iN by (intro mono) simp_all
    then have "count (vals ! i) < count (vals ! nat max0)"
      using lt by simp
    then show "\<not> (count (vals ! nat max0) \<le> count (vals ! i) \<and>
        count (vals ! i) \<le> count (vals ! nat min0))"
      by simp
  qed
  have exact: "sl = filter (\<lambda>w. count (vals ! nat max0) \<le> count w \<and>
      count w \<le> count (vals ! nat min0)) vals"
    unfolding sl_def
    using filter_segment [of a b vals "\<lambda>w. count (vals ! nat max0) \<le> count w \<and>
      count w \<le> count (vals ! nat min0)", OF ab' _ below inside above] bn len(2)
    by simp
  have window: "\<forall>i. nat min0 \<le> i \<and> i \<le> nat max0 \<longrightarrow> vals ! i \<in> set sl"
  proof (intro allI impI)
    fix i
    assume "nat min0 \<le> i \<and> i \<le> nat max0"
    then have "a \<le> i \<and> i \<le> b" using ab by simp
    then show "vals ! i \<in> set sl" unfolding sl_set by blast
  qed
  have ties: "\<forall>w \<in> set survivors. \<forall>r \<in> set sl. count w = count r \<longrightarrow> w \<in> set sl"
  proof (intro ballI impI)
    fix w r
    assume w: "w \<in> set survivors" and r: "r \<in> set sl" and eq: "count w = count r"
    obtain j where j: "j < n" "vals ! j = w" using index [OF w] by blast
    obtain i where i: "a \<le> i" "i \<le> b" "r = vals ! i" using r sl_set by blast
    have "i < n" using i bn by simp
    then have "take 9 (keys ! j) = take 9 (keys ! i)"
      using tie_iff [OF j(1), of i] eq j i by simp
    from closed [OF j(1) i(1,2) this] show "w \<in> set sl"
      using sl_set j by blast
  qed
  have top: "set sl = {w \<in> set survivors. \<forall>v \<in> set survivors. count v \<le> count w}"
    if one: "lo = 1 \<and> hi = 1"
  proof -
    have z: "nat min0 = 0" "nat max0 = 0"
      using one n1 by (simp_all add: min0_def max0_def)
    have a0: "a = 0" using ab z by simp
    have n0: "0 < n" using bn by simp
    have first: "take 9 (keys ! i) = take 9 (keys ! 0)" if "i \<le> b" for i
      using high [folded keys_def, unfolded z] that by blast
    show ?thesis
    proof (intro set_eqI iffI)
      fix r
      assume r: "r \<in> set sl"
      then obtain i where i: "i \<le> b" "r = vals ! i" using sl_set by blast
      have iN: "i < n" using i bn by simp
      have "count v \<le> count r" if v: "v \<in> set survivors" for v
      proof -
        obtain j where j: "j < n" "vals ! j = v" using index [OF v] by blast
        have "take 9 (keys ! 0) \<le> take 9 (keys ! j)"
          using prefix_mono [OF sorted, of 0 j] j len(1) by simp
        then have "take 9 (keys ! i) \<le> take 9 (keys ! j)"
          using first [OF i(1)] by simp
        then show ?thesis
          using le_iff [OF iN j(1)] i j by simp
      qed
      with r sub show "r \<in> {w \<in> set survivors. \<forall>v \<in> set survivors. count v \<le> count w}"
        by blast
    next
      fix w
      assume "w \<in> {w \<in> set survivors. \<forall>v \<in> set survivors. count v \<le> count w}"
      then have w: "w \<in> set survivors" and best: "\<forall>v \<in> set survivors. count v \<le> count w"
        by simp_all
      obtain j where j: "j < n" "vals ! j = w" using index [OF w] by blast
      have "vals ! 0 \<in> set survivors" using entry [OF n0] by simp
      then have "count (vals ! 0) \<le> count (vals ! j)" using best j by simp
      then have 1: "take 9 (keys ! j) \<le> take 9 (keys ! 0)"
        using le_iff [OF j(1) n0] by simp
      have 2: "take 9 (keys ! 0) \<le> take 9 (keys ! j)"
        using prefix_mono [OF sorted, of 0 j] j len(1) by simp
      from 1 2 have "take 9 (keys ! j) = take 9 (keys ! 0)"
        by (rule order_antisym)
      from closed [OF j(1) _ _ this] a0 have "a \<le> j \<and> j \<le> b" by simp
      then show "w \<in> set sl" using sl_set j by blast
    qed
  qed
  have sr: "sl = res"
    unfolding exact res i0 vr ..
  have "applyPostConditions lx os ws = Inr res"
    "\<forall>i. nat lo - 1 \<le> i \<and> i \<le> nat (min hi (int n)) - 1 \<longrightarrow> ranked ! i \<in> set res"
    "\<forall>w \<in> set survivors. \<forall>r \<in> set res. count w = count r \<longrightarrow> w \<in> set res"
    "lo = 1 \<and> hi = 1 \<longrightarrow>
       set res = {w \<in> set survivors. \<forall>v \<in> set survivors. count v \<le> count w}"
    using result window ties top unfolding sr i0 vr by blast+
  moreover have "set ranked = set survivors" "distinct ranked"
    "sorted_wrt (rankedBefore lx lg) ranked"
    using vals_set vals_distinct vals_ranked by (simp_all only: vr)
  ultimately show ?thesis
    by (intro conjI)
qed

theorem lax_limit_keeps_ties_together_witness:
  "filter (\<lambda>c. type c = LimitByProbabilityOrder) (conditions (limitOnly 2 2 True))
     = [(newCondition LimitByProbabilityOrder [] 2 2)\<lparr>boolValue := True\<rparr>] \<and>
   map snd (probMap bagWords False [''QUIZ'', ''RACE'', ''LION'', ''CARE''])
     = [''LION'', ''CARE'', ''RACE'', ''QUIZ''] \<and>
   map (getNumCombinations bagWords) [''LION'', ''CARE'', ''RACE'', ''QUIZ'']
     = [4250, 3816, 3816, 269] \<and>
   applyPostConditions bagWords (limitOnly 2 2 True) [''QUIZ'', ''RACE'', ''LION'', ''CARE'']
     = Inr [''CARE'', ''RACE'']"
proof -
  let ?c = "(newCondition LimitByProbabilityOrder [] 2 2)\<lparr>boolValue := True\<rparr>"
  let ?os = "limitOnly 2 2 True"
  let ?ws = "[''QUIZ'', ''RACE'', ''LION'', ''CARE'']"
  let ?ranked = "[''LION'', ''CARE'', ''RACE'', ''QUIZ'']"
  let ?count = "\<lambda>w. getNumCombinations bagWords (toUpper w)"
  have u: "toUpper ''QUIZ'' = ''QUIZ''" "toUpper ''RACE'' = ''RACE''"
    "toUpper ''LION'' = ''LION''" "toUpper ''CARE'' = ''CARE''"
    by (simp_all add: string_eval)
  have c: "getNumCombinations bagWords ''LION'' = 4250"
    "getNumCombinations bagWords ''CARE'' = 3816"
    "getNumCombinations bagWords ''RACE'' = 3816"
    "getNumCombinations bagWords ''QUIZ'' = 269"
    by (simp_all add: bagWords_def combinations_of_short_words)
  have h1: "[?c] = filter (\<lambda>c. type c = LimitByProbabilityOrder) (conditions ?os)"
    by (simp add: limitOnly_def specOf_def newCondition_def)
  have h2: "[?c] \<noteq> []" by simp
  have h3: "\<forall>c \<in> set [?c]. boolValue c" by (simp add: newCondition_def)
  have h4: "2 = Max (set (1 # map minValue [?c]))" by (simp add: newCondition_def)
  have h5: "2 = Min (set (999999 # map maxValue [?c]))" by (simp add: newCondition_def)
  have h6: "False \<longleftrightarrow> (\<exists>c \<in> set [?c]. legacy c)" by (simp add: newCondition_def)
  have h7: "?ws = filter (\<lambda>w. matchesConditions bagWords w (conditions ?os)) ?ws"
    by (simp add: limitOnly_def specOf_def newCondition_def)
  have h8: "4 = length ?ws" by simp
  have h9: "(2 :: int) \<le> 2" "2 \<le> int 4" "(4 :: nat) \<le> 999999" by simp_all
  have h10: "distinct (map toUpper ?ws)" by (simp add: u)
  have h11: "\<forall>w \<in> set ?ws. getNumCombinations bagWords (toUpper w) \<le> 999999999"
    by (simp add: u c)
  have r: "radix bagWords False ''QUIZ'' = ''999999730IQUZQUIZ''"
    "radix bagWords False ''RACE'' = ''999996183ACERRACE''"
    "radix bagWords False ''LION'' = ''999995749ILNOLION''"
    "radix bagWords False ''CARE'' = ''999996183ACERCARE''"
    by (simp_all add: radix_def u c sprintf09_def zeroFill_def decimal.simps digitChars_def
        getAlphagram_def)
  have h12: "?ranked = map snd (probMap bagWords False ?ws)"
    by (simp add: probMap_def r)
  have h13: "?count = (\<lambda>w. getNumCombinations bagWords (toUpper w))" ..
  have h14: "[''CARE'', ''RACE''] =
      filter (\<lambda>w. ?count (?ranked ! (nat (min 2 (int 4)) - 1)) \<le> ?count w \<and>
                   ?count w \<le> ?count (?ranked ! (nat 2 - 1))) ?ranked"
    by (simp add: u c)
  note t = lax_limit_keeps_ties_together [OF h1 h2 h3 h4 h5 h6 h7 h8 h9 h10 h11 h12 h13 h14]
  have e: "applyPostConditions bagWords ?os ?ws = Inr [''CARE'', ''RACE'']"
    using t by (elim conjE)
  have n: "map (getNumCombinations bagWords) ?ranked = [4250, 3816, 3816, 269]"
    by (simp add: c)
  from h1 [symmetric] h12 [symmetric] n e show ?thesis
    by (intro conjI)
qed

text \<open>
  Where the hypotheses on the survivors end: a list that holds a word twice
  has fewer keys than words, and the key at the upper bound is read outside
  the list of keys.
\<close>

lemma lax_limit_on_repeated_word:
  "applyPostConditions careRace (anagramWithLimit 2 2 True) [''CARE'', ''CARE'']
     = Inl IndexOutOfRange"
  by (simp add: string_eval fixture_eval post_eval)

text \<open>
  C3, as it is stated, fails for a strict condition: the window is never
  moved beyond a strict bound, and of the two words CARE and RACE, which
  can be drawn in equally many ways, the strict limit from 1 to 1 returns one.
\<close>

theorem strict_limit_splits_ties:
  "applyPostConditions careRace (anagramWithLimit 1 1 False) [''CARE'', ''RACE'']
     = Inr [''CARE''] \<and>
   getNumCombinations careRace ''RACE'' = getNumCombinations careRace ''CARE''"
  by (simp add: string_eval fixture_eval post_eval)

end
